theory Spec2Isabelle
  imports Main
begin

section \<open>Data model\<close>

text \<open>
  The tree of \<^verbatim>\<open>RedBlackTree.cpp\<close> is a graph of heap-allocated nodes linked by raw
  pointers, with a parent back-pointer in every node. The model keeps that shape: an
  address is a natural number, a pointer is an optional address (\<open>None\<close> is
  \<^verbatim>\<open>nullptr\<close>), and the heap maps every address to the node stored there. Keys are
  C++ \<^verbatim>\<open>int\<close>s; the code only compares and prints them, so they are modelled by
  \<open>int\<close> (no arithmetic on keys, hence no wrap-around).
\<close>

type_synonym addr = nat

text \<open>
  Modelled from the spec: the header \<^verbatim>\<open>RedBlackTree.h\<close>, which declares the colour
  constants, \<^verbatim>\<open>struct RBTNode\<close> and the members of \<^verbatim>\<open>class RedBlackTree\<close>, is not
  among the sources. The spec gives a node a key, a colour that is one of RED and BLACK,
  two child links and a parent back-reference, and gives the tree a root and a count of
  stored items. The field \<^verbatim>\<open>IsNullNode\<close> is taken from \<^verbatim>\<open>CopyOf\<close>, its only user.
  The count \<^verbatim>\<open>numItems\<close> is only set to 0 or 1, copied and incremented; it is modelled by
  \<open>nat\<close>, so the model says nothing about a count past the range of its C++ type (one
  node is allocated per counted item, and the model's allocator never runs out).
\<close>

datatype color = COLOR_RED | COLOR_BLACK

record RBTNode =
  data :: int
  color :: color
  left :: "addr option"
  right :: "addr option"
  parent :: "addr option"
  IsNullNode :: bool

type_synonym heap = "addr \<Rightarrow> RBTNode"

record memory =
  cells :: heap
  next_free :: addr

record RedBlackTree =
  root :: "addr option"
  numItems :: nat

text \<open>
  The two exceptions of the source (\<^verbatim>\<open>invalid_argument("Duplicate value.")\<close> and
  \<^verbatim>\<open>invalid_argument("Tree is empty.")\<close>), and the dereference of a null pointer, which
  the model reports instead of leaving it undefined.
\<close>

datatype error = Duplicate_value | Tree_is_empty | Null_dereference

subsection \<open>Field writes and allocation\<close>

definition set_data :: "heap \<Rightarrow> addr \<Rightarrow> int \<Rightarrow> heap" where
  "set_data h a v = h(a := (h a)\<lparr>data := v\<rparr>)"

definition set_color :: "heap \<Rightarrow> addr \<Rightarrow> color \<Rightarrow> heap" where
  "set_color h a v = h(a := (h a)\<lparr>color := v\<rparr>)"

definition set_left :: "heap \<Rightarrow> addr \<Rightarrow> addr option \<Rightarrow> heap" where
  "set_left h a v = h(a := (h a)\<lparr>left := v\<rparr>)"

definition set_right :: "heap \<Rightarrow> addr \<Rightarrow> addr option \<Rightarrow> heap" where
  "set_right h a v = h(a := (h a)\<lparr>right := v\<rparr>)"

definition set_parent :: "heap \<Rightarrow> addr \<Rightarrow> addr option \<Rightarrow> heap" where
  "set_parent h a v = h(a := (h a)\<lparr>parent := v\<rparr>)"

definition set_IsNullNode :: "heap \<Rightarrow> addr \<Rightarrow> bool \<Rightarrow> heap" where
  "set_IsNullNode h a v = h(a := (h a)\<lparr>IsNullNode := v\<rparr>)"

text \<open>
  Modelled from the spec: the default member initialisers of \<^verbatim>\<open>RBTNode\<close> are in the
  missing header. A fresh node has no children and no parent; its key and colour are
  assigned by every caller of \<^verbatim>\<open>new RBTNode()\<close> before they are read.
\<close>

definition RBTNode_init :: RBTNode where
  "RBTNode_init =
     \<lparr>data = 0, color = COLOR_RED, left = None, right = None, parent = None,
      IsNullNode = False\<rparr>"

text \<open>\<^verbatim>\<open>new RBTNode()\<close>: the next unused address, holding a fresh node.\<close>

definition new_RBTNode :: "memory \<Rightarrow> addr \<times> memory" where
  "new_RBTNode m =
     (next_free m,
      \<lparr>cells = (cells m)(next_free m := RBTNode_init), next_free = Suc (next_free m)\<rparr>)"

definition upd :: "memory \<Rightarrow> (heap \<Rightarrow> heap) \<Rightarrow> memory" where
  "upd m f = m\<lparr>cells := f (cells m)\<rparr>"

section \<open>The operations of RedBlackTree.cpp\<close>

subsection \<open>Child tests and the uncle\<close>

definition IsLeftChild :: "heap \<Rightarrow> addr \<Rightarrow> bool" where
  "IsLeftChild h node =
     (case parent (h node) of None \<Rightarrow> False | Some p \<Rightarrow> left (h p) = Some node)"

definition IsRightChild :: "heap \<Rightarrow> addr \<Rightarrow> bool" where
  "IsRightChild h node =
     (case parent (h node) of None \<Rightarrow> False | Some p \<Rightarrow> right (h p) = Some node)"

definition GetUncle :: "heap \<Rightarrow> addr \<Rightarrow> addr option" where
  "GetUncle h node =
     (case parent (h node) of None \<Rightarrow> None
      | Some p \<Rightarrow>
          (case parent (h p) of None \<Rightarrow> None
           | Some g \<Rightarrow> if IsLeftChild h p then right (h g) else left (h g)))"

subsection \<open>Rotations\<close>

text \<open>
  Both rotations take the tree's root pointer and return the new one with the new heap.
  The statements are those of the source, in its order; every read is from the heap as
  the preceding writes left it.
\<close>

definition LeftRotate :: "heap \<Rightarrow> addr option \<Rightarrow> addr \<Rightarrow> error + heap \<times> addr option" where
  "LeftRotate h rt node =
     (case right (h node) of None \<Rightarrow> Inl Null_dereference
      | Some r \<Rightarrow>
          let h1 = set_right h node (left (h r));
              h2 = (case left (h1 r) of None \<Rightarrow> h1
                    | Some rl \<Rightarrow> set_parent h1 rl (Some node));
              h3 = set_parent h2 r (parent (h2 node));
              (h4, rt4) =
                 (case parent (h3 node) of None \<Rightarrow> (h3, Some r)
                  | Some p \<Rightarrow>
                      if IsLeftChild h3 node then (set_left h3 p (Some r), rt)
                      else (set_right h3 p (Some r), rt));
              h5 = set_left h4 r (Some node);
              h6 = set_parent h5 node (Some r)
          in Inr (h6, rt4))"

definition RightRotate :: "heap \<Rightarrow> addr option \<Rightarrow> addr \<Rightarrow> error + heap \<times> addr option" where
  "RightRotate h rt node =
     (case left (h node) of None \<Rightarrow> Inl Null_dereference
      | Some l \<Rightarrow>
          let h1 = set_left h node (right (h l));
              h2 = (case right (h1 l) of None \<Rightarrow> h1
                    | Some lr \<Rightarrow> set_parent h1 lr (Some node));
              h3 = set_parent h2 l (parent (h2 node));
              (h4, rt4) =
                 (case parent (h3 node) of None \<Rightarrow> (h3, Some l)
                  | Some p \<Rightarrow>
                      if IsRightChild h3 node then (set_right h3 p (Some l), rt)
                      else (set_left h3 p (Some l), rt));
              h5 = set_right h4 l (Some node);
              h6 = set_parent h5 node (Some l)
          in Inr (h6, rt4))"

subsection \<open>Insertion\<close>

definition bind_r :: "error + 'a \<Rightarrow> ('a \<Rightarrow> error + 'b) \<Rightarrow> error + 'b" where
  "bind_r x f = (case x of Inl e \<Rightarrow> Inl e | Inr v \<Rightarrow> f v)"

text \<open>Following a pointer: a null pointer cannot be dereferenced.\<close>

definition deref :: "addr option \<Rightarrow> error + addr" where
  "deref p = (case p of None \<Rightarrow> Inl Null_dereference | Some a \<Rightarrow> Inr a)"

text \<open>The descent of \<^verbatim>\<open>BasicInsert\<close>: the \<^verbatim>\<open>while (cur != nullptr)\<close> loop, returning
  \<^verbatim>\<open>prev\<close>.\<close>

partial_function (option) BasicInsert_loop ::
  "heap \<Rightarrow> addr \<Rightarrow> addr option \<Rightarrow> addr option \<Rightarrow> addr option option" where
  "BasicInsert_loop h node cur prev =
     (case cur of None \<Rightarrow> Some prev
      | Some c \<Rightarrow>
          BasicInsert_loop h node
            (if data (h node) < data (h c) then left (h c) else right (h c)) (Some c))"

definition BasicInsert :: "heap \<Rightarrow> addr option \<Rightarrow> addr \<Rightarrow> (error + heap) option" where
  "BasicInsert h rt node =
     Option.bind (BasicInsert_loop h node rt None) (\<lambda>prev.
       let h1 = set_parent h node prev in
       Some (bind_r (deref prev) (\<lambda>pv.
         if data (h1 node) < data (h1 pv) then Inr (set_left h1 pv (Some node))
         else Inr (set_right h1 pv (Some node)))))"

text \<open>The loop condition \<^verbatim>\<open>node != root && node->parent->color == COLOR_RED\<close>.\<close>

definition InsertFixUp_cond :: "heap \<Rightarrow> addr option \<Rightarrow> addr \<Rightarrow> error + bool" where
  "InsertFixUp_cond h rt node =
     (if Some node \<noteq> rt
      then bind_r (deref (parent (h node))) (\<lambda>p. Inr (color (h p) = COLOR_RED))
      else Inr False)"

text \<open>Case 1 of either side: recolour parent, uncle and grandparent, and move up to the
  grandparent.\<close>

definition recolor_up :: "heap \<Rightarrow> addr option \<Rightarrow> addr \<Rightarrow> addr \<Rightarrow> error + heap \<times> addr option \<times> addr" where
  "recolor_up h rt node uncle =
     bind_r (deref (parent (h node))) (\<lambda>p.
     let h1 = set_color h p COLOR_BLACK;
         h2 = set_color h1 uncle COLOR_BLACK in
     bind_r (deref (parent (h2 node))) (\<lambda>p2.
     bind_r (deref (parent (h2 p2))) (\<lambda>g.
     let h3 = set_color h2 g COLOR_RED in
     bind_r (deref (parent (h3 node))) (\<lambda>p3.
     bind_r (deref (parent (h3 p3))) (\<lambda>g3.
     Inr (h3, rt, g3))))))"

text \<open>The last three statements of cases 2 and 3: recolour parent and grandparent, and
  rotate the grandparent (to the right on the left side, to the left on the right side).\<close>

definition recolor_rotate ::
  "(heap \<Rightarrow> addr option \<Rightarrow> addr \<Rightarrow> error + heap \<times> addr option) \<Rightarrow>
   heap \<Rightarrow> addr option \<Rightarrow> addr \<Rightarrow> error + heap \<times> addr option \<times> addr" where
  "recolor_rotate rotation h rt node =
     bind_r (deref (parent (h node))) (\<lambda>p.
     let h1 = set_color h p COLOR_BLACK in
     bind_r (deref (parent (h1 node))) (\<lambda>p1.
     bind_r (deref (parent (h1 p1))) (\<lambda>g.
     let h2 = set_color h1 g COLOR_RED in
     bind_r (deref (parent (h2 node))) (\<lambda>p2.
     bind_r (deref (parent (h2 p2))) (\<lambda>g2.
     bind_r (rotation h2 rt g2) (\<lambda>(h3, rt3).
     Inr (h3, rt3, node)))))))"

text \<open>One pass through the body of the \<^verbatim>\<open>while\<close> loop of \<^verbatim>\<open>InsertFixUp\<close>. It returns the
  heap, the root and the node the next pass starts from.\<close>

definition InsertFixUp_body ::
  "heap \<Rightarrow> addr option \<Rightarrow> addr \<Rightarrow> error + heap \<times> addr option \<times> addr" where
  "InsertFixUp_body h rt node =
     bind_r (deref (parent (h node))) (\<lambda>p.
       if IsLeftChild h p then
         (let uncle = GetUncle h node in
          if uncle \<noteq> None \<and> color (h (the uncle)) = COLOR_RED
          then recolor_up h rt node (the uncle)
          else if IsRightChild h node
            then bind_r (LeftRotate h rt p) (\<lambda>(h1, rt1). recolor_rotate RightRotate h1 rt1 p)
            else recolor_rotate RightRotate h rt node)
       else
         (let uncle = GetUncle h node in
          if uncle \<noteq> None \<and> color (h (the uncle)) = COLOR_RED
          then recolor_up h rt node (the uncle)
          else if IsLeftChild h node
            then bind_r (RightRotate h rt p) (\<lambda>(h1, rt1). recolor_rotate LeftRotate h1 rt1 p)
            else recolor_rotate LeftRotate h rt node))"

partial_function (option) InsertFixUp ::
  "heap \<Rightarrow> addr option \<Rightarrow> addr \<Rightarrow> (error + heap \<times> addr option) option" where
  "InsertFixUp h rt node =
     (case InsertFixUp_cond h rt node of
        Inl e \<Rightarrow> Some (Inl e)
      | Inr again \<Rightarrow>
          if again then
            (case InsertFixUp_body h rt node of
               Inl e \<Rightarrow> Some (Inl e)
             | Inr (h1, rt1, node1) \<Rightarrow> InsertFixUp h1 rt1 node1)
          else Some (bind_r (deref rt) (\<lambda>r. Inr (set_color h r COLOR_BLACK, rt))))"

subsection \<open>Queries\<close>

partial_function (option) Get_loop :: "heap \<Rightarrow> int \<Rightarrow> addr option \<Rightarrow> addr option option" where
  "Get_loop h key cur =
     (case cur of None \<Rightarrow> Some None
      | Some c \<Rightarrow>
          if key = data (h c) then Some (Some c)
          else if key < data (h c) then Get_loop h key (left (h c))
          else Get_loop h key (right (h c)))"

definition Get :: "heap \<Rightarrow> RedBlackTree \<Rightarrow> int \<Rightarrow> addr option option" where
  "Get h t key = Get_loop h key (root t)"

definition Contains :: "heap \<Rightarrow> RedBlackTree \<Rightarrow> int \<Rightarrow> bool option" where
  "Contains h t key = Option.bind (Get h t key) (\<lambda>n. Some (n \<noteq> None))"

partial_function (option) GetMin_loop :: "heap \<Rightarrow> addr \<Rightarrow> addr option" where
  "GetMin_loop h cur =
     (case left (h cur) of None \<Rightarrow> Some cur | Some l \<Rightarrow> GetMin_loop h l)"

definition GetMin :: "heap \<Rightarrow> RedBlackTree \<Rightarrow> (error + int) option" where
  "GetMin h t =
     (case root t of None \<Rightarrow> Some (Inl Tree_is_empty)
      | Some r \<Rightarrow> Option.bind (GetMin_loop h r) (\<lambda>c. Some (Inr (data (h c)))))"

partial_function (option) GetMax_loop :: "heap \<Rightarrow> addr \<Rightarrow> addr option" where
  "GetMax_loop h cur =
     (case right (h cur) of None \<Rightarrow> Some cur | Some r \<Rightarrow> GetMax_loop h r)"

definition GetMax :: "heap \<Rightarrow> RedBlackTree \<Rightarrow> (error + int) option" where
  "GetMax h t =
     (case root t of None \<Rightarrow> Some (Inl Tree_is_empty)
      | Some r \<Rightarrow> Option.bind (GetMax_loop h r) (\<lambda>c. Some (Inr (data (h c)))))"

subsection \<open>Rendering\<close>

text \<open>\<^verbatim>\<open>std::to_string\<close> on an \<^verbatim>\<open>int\<close>: decimal digits, with a minus sign for a negative
  number.\<close>

fun string_of_nat :: "nat \<Rightarrow> string" where
  "string_of_nat n =
     (if n < 10 then [''0123456789'' ! n]
      else string_of_nat (n div 10) @ [''0123456789'' ! (n mod 10)])"

definition to_string :: "int \<Rightarrow> string" where
  "to_string i = (if i < 0 then CHR ''-'' # string_of_nat (nat (- i)) else string_of_nat (nat i))"

definition GetColorString :: "heap \<Rightarrow> addr option \<Rightarrow> string" where
  "GetColorString h n =
     (case n of None \<Rightarrow> ''''
      | Some a \<Rightarrow> if color (h a) = COLOR_RED then ''R'' else ''B'')"

definition GetNodeString :: "heap \<Rightarrow> addr option \<Rightarrow> string" where
  "GetNodeString h n =
     (case n of None \<Rightarrow> ''''
      | Some a \<Rightarrow> '' '' @ GetColorString h n @ to_string (data (h a)) @ '' '')"

partial_function (option) ToInfixString :: "heap \<Rightarrow> addr option \<Rightarrow> string option" where
  "ToInfixString h n =
     (case n of None \<Rightarrow> Some ''''
      | Some a \<Rightarrow>
          Option.bind (ToInfixString h (left (h a))) (\<lambda>l.
          Option.bind (ToInfixString h (right (h a))) (\<lambda>r.
            Some (l @ GetNodeString h n @ r))))"

partial_function (option) ToPrefixString :: "heap \<Rightarrow> addr option \<Rightarrow> string option" where
  "ToPrefixString h n =
     (case n of None \<Rightarrow> Some ''''
      | Some a \<Rightarrow>
          Option.bind (ToPrefixString h (left (h a))) (\<lambda>l.
          Option.bind (ToPrefixString h (right (h a))) (\<lambda>r.
            Some (GetNodeString h n @ l @ r))))"

partial_function (option) ToPostfixString :: "heap \<Rightarrow> addr option \<Rightarrow> string option" where
  "ToPostfixString h n =
     (case n of None \<Rightarrow> Some ''''
      | Some a \<Rightarrow>
          Option.bind (ToPostfixString h (left (h a))) (\<lambda>l.
          Option.bind (ToPostfixString h (right (h a))) (\<lambda>r.
            Some (l @ r @ GetNodeString h n))))"

subsection \<open>Construction, copy and Insert\<close>

partial_function (option) CopyOf :: "memory \<Rightarrow> addr option \<Rightarrow> (memory \<times> addr option) option" where
  "CopyOf m node =
     (case node of None \<Rightarrow> Some (m, None)
      | Some n \<Rightarrow>
          (case new_RBTNode m of (copy, m0) \<Rightarrow>
            let m1 = upd m0 (\<lambda>h. set_data h copy (data (h n)));
                m2 = upd m1 (\<lambda>h. set_color h copy (color (h n)));
                m3 = upd m2 (\<lambda>h. set_IsNullNode h copy (IsNullNode (h n)))
            in Option.bind (CopyOf m3 (left (cells m3 n))) (\<lambda>(m4, l).
                 let m5 = upd m4 (\<lambda>h. set_left h copy l)
                 in Option.bind (CopyOf m5 (right (cells m5 n))) (\<lambda>(m6, r).
                      let m7 = upd m6 (\<lambda>h. set_right h copy r);
                          m8 = (case left (cells m7 copy) of None \<Rightarrow> m7
                                | Some cl \<Rightarrow> upd m7 (\<lambda>h. set_parent h cl (Some copy)));
                          m9 = (case right (cells m8 copy) of None \<Rightarrow> m8
                                | Some cr \<Rightarrow> upd m8 (\<lambda>h. set_parent h cr (Some copy)))
                      in Some (m9, Some copy)))))"

definition RedBlackTree_default :: RedBlackTree where
  "RedBlackTree_default = \<lparr>root = None, numItems = 0\<rparr>"

definition RedBlackTree_int :: "memory \<Rightarrow> int \<Rightarrow> memory \<times> RedBlackTree" where
  "RedBlackTree_int m newData =
     (case new_RBTNode m of (r, m0) \<Rightarrow>
        let m1 = upd m0 (\<lambda>h. set_data h r newData);
            m2 = upd m1 (\<lambda>h. set_color h r COLOR_BLACK)
        in (m2, \<lparr>root = Some r, numItems = 1\<rparr>))"

definition RedBlackTree_copy :: "memory \<Rightarrow> RedBlackTree \<Rightarrow> (memory \<times> RedBlackTree) option" where
  "RedBlackTree_copy m rbt =
     Option.bind (CopyOf m (root rbt)) (\<lambda>(m1, r).
       Some (m1, \<lparr>root = r, numItems = numItems rbt\<rparr>))"

text \<open>
  \<^verbatim>\<open>Insert\<close> returns its outcome together with the memory and the tree object as they
  are when it returns or throws, so that what a failed call leaves behind is part of the
  result. After a null dereference the model hands back the state reached so far.
\<close>

definition Insert ::
  "memory \<Rightarrow> RedBlackTree \<Rightarrow> int \<Rightarrow> ((error + unit) \<times> memory \<times> RedBlackTree) option" where
  "Insert m t newData =
     (if root t = None then
        (case new_RBTNode m of (r, m0) \<Rightarrow>
           let m1 = upd m0 (\<lambda>h. set_data h r newData);
               m2 = upd m1 (\<lambda>h. set_color h r COLOR_BLACK)
           in Some (Inr (), m2, \<lparr>root = Some r, numItems = numItems t + 1\<rparr>))
      else
        Option.bind (Contains (cells m) t newData) (\<lambda>found.
          if found then Some (Inl Duplicate_value, m, t)
          else
            (case new_RBTNode m of (newNode, m0) \<Rightarrow>
               let m1 = upd m0 (\<lambda>h. set_data h newNode newData);
                   m2 = upd m1 (\<lambda>h. set_color h newNode COLOR_RED)
               in Option.bind (BasicInsert (cells m2) (root t) newNode) (\<lambda>r1.
                    case r1 of
                      Inl e \<Rightarrow> Some (Inl e, m2, t)
                    | Inr h3 \<Rightarrow>
                        Option.bind (InsertFixUp h3 (root t) newNode) (\<lambda>r2.
                          case r2 of
                            Inl e \<Rightarrow> Some (Inl e, m2\<lparr>cells := h3\<rparr>, t)
                          | Inr (h4, rt4) \<Rightarrow>
                              (case rt4 of
                                 None \<Rightarrow> Some (Inl Null_dereference, m2\<lparr>cells := h4\<rparr>, t\<lparr>root := rt4\<rparr>)
                               | Some r \<Rightarrow>
                                   Some (Inr (),
                                         m2\<lparr>cells := set_color h4 r COLOR_BLACK\<rparr>,
                                         \<lparr>root = rt4, numItems = numItems t + 1\<rparr>)))))))"


section \<open>Scenarios\<close>

text \<open>A memory in which nothing has been allocated yet.\<close>

definition empty_memory :: memory where
  "empty_memory = \<lparr>cells = (\<lambda>_. RBTNode_init), next_free = 0\<rparr>"

text \<open>A sequence of calls of \<^verbatim>\<open>Insert\<close> on one tree, all of which must succeed.\<close>

fun Insert_all :: "memory \<Rightarrow> RedBlackTree \<Rightarrow> int list \<Rightarrow> (memory \<times> RedBlackTree) option" where
  "Insert_all m t [] = Some (m, t)"
| "Insert_all m t (k # ks) =
     Option.bind (Insert m t k) (\<lambda>(res, m1, t1).
       case res of Inl e \<Rightarrow> None | Inr u \<Rightarrow> Insert_all m1 t1 ks)"

text \<open>A traversal rendering of the tree a scenario ends with.\<close>

definition rendering ::
  "(heap \<Rightarrow> addr option \<Rightarrow> string option) \<Rightarrow> (memory \<times> RedBlackTree) option \<Rightarrow> string option" where
  "rendering f s = Option.bind s (\<lambda>(m, t). f (cells m) (root t))"

text \<open>The result of a query on the tree a scenario ends with.\<close>

definition query ::
  "(heap \<Rightarrow> RedBlackTree \<Rightarrow> 'a option) \<Rightarrow> (memory \<times> RedBlackTree) option \<Rightarrow> 'a option" where
  "query f s = Option.bind s (\<lambda>(m, t). f (cells m) t)"

text \<open>A node as the scenarios look at it: key, colour, and whether it has a left and a right
  child.\<close>

definition node_view :: "heap \<Rightarrow> addr option \<Rightarrow> (int \<times> color \<times> bool \<times> bool) option" where
  "node_view h p =
     (case p of None \<Rightarrow> None
      | Some a \<Rightarrow> Some (data (h a), color (h a), left (h a) \<noteq> None, right (h a) \<noteq> None))"

text \<open>The root of a tree and the root's two children, as node views.\<close>

definition top_view ::
  "heap \<Rightarrow> RedBlackTree \<Rightarrow>
   ((int \<times> color \<times> bool \<times> bool) option \<times> (int \<times> color \<times> bool \<times> bool) option \<times>
    (int \<times> color \<times> bool \<times> bool) option) option" where
  "top_view h t =
     (case root t of None \<Rightarrow> Some (None, None, None)
      | Some r \<Rightarrow> Some (node_view h (Some r), node_view h (left (h r)), node_view h (right (h r))))"

text \<open>The memory and the tree after inserting the given keys, in order, into an empty tree
  in an empty memory.\<close>

definition state_after :: "int list \<Rightarrow> memory \<times> RedBlackTree" where
  "state_after ks = the (Insert_all empty_memory RedBlackTree_default ks)"

section \<open>What the claims speak about\<close>

text \<open>
  The notions below are read directly from the heap: the nodes reachable from a pointer
  through child links, the number of BLACK nodes on a downward path, the keys stored in
  a tree, and the program states that the public operations can produce.
\<close>

inductive_set nodes :: "heap \<Rightarrow> addr option \<Rightarrow> addr set" for h :: heap and p :: "addr option" where
  root: "p = Some a \<Longrightarrow> a \<in> nodes h p"
| left: "a \<in> nodes h p \<Longrightarrow> left (h a) = Some b \<Longrightarrow> b \<in> nodes h p"
| right: "a \<in> nodes h p \<Longrightarrow> right (h a) = Some b \<Longrightarrow> b \<in> nodes h p"

inductive black_path :: "heap \<Rightarrow> addr option \<Rightarrow> nat \<Rightarrow> bool" for h :: heap where
  slot: "black_path h None 0"
| left: "black_path h (left (h a)) n \<Longrightarrow>
         black_path h (Some a) (if color (h a) = COLOR_BLACK then Suc n else n)"
| right: "black_path h (right (h a)) n \<Longrightarrow>
          black_path h (Some a) (if color (h a) = COLOR_BLACK then Suc n else n)"

definition stored_keys :: "heap \<Rightarrow> RedBlackTree \<Rightarrow> int set" where
  "stored_keys h t = (\<lambda>a. data (h a)) ` nodes h (root t)"

text \<open>The parent back-pointers below a root pointer are the inverses of the child links: the
  root has no parent, and every child of a node points back to that node.\<close>

definition parent_links :: "heap \<Rightarrow> addr option \<Rightarrow> bool" where
  "parent_links h rt \<longleftrightarrow>
     (\<forall>r. rt = Some r \<longrightarrow> parent (h r) = None) \<and>
     (\<forall>a \<in> nodes h rt. \<forall>c. left (h a) = Some c \<or> right (h a) = Some c \<longrightarrow> parent (h c) = Some a)"

inductive reachable :: "memory \<Rightarrow> RedBlackTree list \<Rightarrow> bool" where
  start: "reachable m []"
| default_ctor: "reachable m ts \<Longrightarrow> reachable m (ts @ [RedBlackTree_default])"
| value_ctor: "reachable m ts \<Longrightarrow> RedBlackTree_int m k = (m', t) \<Longrightarrow> reachable m' (ts @ [t])"
| copy_ctor: "reachable m ts \<Longrightarrow> i < length ts \<Longrightarrow> RedBlackTree_copy m (ts ! i) = Some (m', t) \<Longrightarrow>
              reachable m' (ts @ [t])"
| insert: "reachable m ts \<Longrightarrow> i < length ts \<Longrightarrow> Insert m (ts ! i) k = Some (res, m', t) \<Longrightarrow>
           reachable m' (ts[i := t])"

section \<open>The tree a heap represents\<close>

text \<open>
  The proofs relate the heap to a tree value. A tree lists, for every node, its address,
  colour and key; \<open>repr h par p T\<close> says that the pointer \<open>p\<close> leads, in heap \<open>h\<close>, to
  exactly the tree \<open>T\<close>, whose root has parent pointer \<open>par\<close>: every child link and every
  parent back-pointer is as \<open>T\<close> prescribes. The fix-up loop walks upwards, so the part of
  the tree above the current node is kept as a context: the list of the ancestors, nearest
  first, each with the side the path descends on and the sibling subtree.
\<close>

datatype tree = Leaf | Node tree addr color int tree

fun addrs :: "tree \<Rightarrow> addr list" where
  "addrs Leaf = []"
| "addrs (Node l a c k r) = addrs l @ a # addrs r"

fun keys :: "tree \<Rightarrow> int list" where
  "keys Leaf = []"
| "keys (Node l a c k r) = keys l @ k # keys r"

fun repr :: "heap \<Rightarrow> addr option \<Rightarrow> addr option \<Rightarrow> tree \<Rightarrow> bool" where
  "repr h par p Leaf \<longleftrightarrow> p = None"
| "repr h par p (Node l a c k r) \<longleftrightarrow>
     p = Some a \<and> parent (h a) = par \<and> color (h a) = c \<and> data (h a) = k \<and>
     repr h (Some a) (left (h a)) l \<and> repr h (Some a) (right (h a)) r"

datatype frame = LeftOf addr color int tree | RightOf addr color int tree

fun fill :: "frame \<Rightarrow> tree \<Rightarrow> tree" where
  "fill (LeftOf a c k r) t = Node t a c k r"
| "fill (RightOf a c k l) t = Node l a c k t"

fun plug :: "frame list \<Rightarrow> tree \<Rightarrow> tree" where
  "plug [] t = t"
| "plug (f # fs) t = plug fs (fill f t)"

fun frame_addrs :: "frame \<Rightarrow> addr list" where
  "frame_addrs (LeftOf a c k r) = a # addrs r"
| "frame_addrs (RightOf a c k l) = a # addrs l"

fun ctx_addrs :: "frame list \<Rightarrow> addr list" where
  "ctx_addrs [] = []"
| "ctx_addrs (f # fs) = frame_addrs f @ ctx_addrs fs"

fun repr_ctx :: "heap \<Rightarrow> addr option \<Rightarrow> frame list \<Rightarrow> addr option \<Rightarrow> addr option \<Rightarrow> bool" where
  "repr_ctx h rt [] p par \<longleftrightarrow> rt = p \<and> par = None"
| "repr_ctx h rt (LeftOf a c k r # fs) p par \<longleftrightarrow>
     par = Some a \<and> left (h a) = p \<and> color (h a) = c \<and> data (h a) = k \<and>
     repr h (Some a) (right (h a)) r \<and> repr_ctx h rt fs (Some a) (parent (h a))"
| "repr_ctx h rt (RightOf a c k l # fs) p par \<longleftrightarrow>
     par = Some a \<and> right (h a) = p \<and> color (h a) = c \<and> data (h a) = k \<and>
     repr h (Some a) (left (h a)) l \<and> repr_ctx h rt fs (Some a) (parent (h a))"

(* setter reads *)

fun rootcol :: "tree \<Rightarrow> color" where
  "rootcol Leaf = COLOR_BLACK"
| "rootcol (Node l a c k r) = c"

fun paint :: "color \<Rightarrow> tree \<Rightarrow> tree" where
  "paint c Leaf = Leaf"
| "paint c (Node l a _ k r) = Node l a c k r"

fun invc :: "tree \<Rightarrow> bool" where
  "invc Leaf = True"
| "invc (Node l a c k r) \<longleftrightarrow>
     invc l \<and> invc r \<and> (c = COLOR_RED \<longrightarrow> rootcol l = COLOR_BLACK \<and> rootcol r = COLOR_BLACK)"

fun bheight :: "tree \<Rightarrow> nat" where
  "bheight Leaf = 0"
| "bheight (Node l a c k r) = (if c = COLOR_BLACK then Suc (bheight l) else bheight l)"

fun invh :: "tree \<Rightarrow> bool" where
  "invh Leaf = True"
| "invh (Node l a c k r) \<longleftrightarrow> invh l \<and> invh r \<and> bheight l = bheight r"

text \<open>One pass of the fix-up loop on the zipper.\<close>

fun fix_step :: "frame list \<Rightarrow> tree \<Rightarrow> frame list \<times> tree" where
  "fix_step (LeftOf p cp kp s # LeftOf g cg kg u # gs) t =
     (if rootcol u = COLOR_RED
      then (gs, Node (Node t p COLOR_BLACK kp s) g COLOR_RED kg (paint COLOR_BLACK u))
      else (LeftOf p COLOR_BLACK kp (Node s g COLOR_RED kg u) # gs, t))"
| "fix_step (RightOf p cp kp s # LeftOf g cg kg u # gs) t =
     (if rootcol u = COLOR_RED
      then (gs, Node (Node s p COLOR_BLACK kp t) g COLOR_RED kg (paint COLOR_BLACK u))
      else (case t of
              Leaf \<Rightarrow> (gs, Leaf)
            | Node ta n cn kn tb \<Rightarrow>
                (LeftOf n COLOR_BLACK kn (Node tb g COLOR_RED kg u) # gs, Node s p cp kp ta)))"
| "fix_step (RightOf p cp kp s # RightOf g cg kg u # gs) t =
     (if rootcol u = COLOR_RED
      then (gs, Node (paint COLOR_BLACK u) g COLOR_RED kg (Node s p COLOR_BLACK kp t))
      else (RightOf p COLOR_BLACK kp (Node u g COLOR_RED kg s) # gs, t))"
| "fix_step (LeftOf p cp kp s # RightOf g cg kg u # gs) t =
     (if rootcol u = COLOR_RED
      then (gs, Node (paint COLOR_BLACK u) g COLOR_RED kg (Node t p COLOR_BLACK kp s))
      else (case t of
              Leaf \<Rightarrow> (gs, Leaf)
            | Node ta n cn kn tb \<Rightarrow>
                (RightOf n COLOR_BLACK kn (Node u g COLOR_RED kg ta) # gs, Node tb p cp kp s)))"
| "fix_step ctx t = (ctx, t)"

fun root_addr :: "tree \<Rightarrow> addr option" where
  "root_addr Leaf = None"
| "root_addr (Node l a c k r) = Some a"

fun fcolor :: "frame \<Rightarrow> color" where
  "fcolor (LeftOf a c k r) = c"
| "fcolor (RightOf a c k l) = c"

fun faddr :: "frame \<Rightarrow> addr" where
  "faddr (LeftOf a c k r) = a"
| "faddr (RightOf a c k l) = a"

fun sibling :: "frame \<Rightarrow> tree" where
  "sibling (LeftOf a c k r) = r"
| "sibling (RightOf a c k l) = l"

text \<open>A context is balanced for a hole of black height \<open>b\<close>.\<close>

fun invh_ctx :: "frame list \<Rightarrow> nat \<Rightarrow> bool" where
  "invh_ctx [] b = True"
| "invh_ctx (f # fs) b \<longleftrightarrow>
     invh (sibling f) \<and> bheight (sibling f) = b \<and>
     invh_ctx fs (if fcolor f = COLOR_BLACK then Suc b else b)"

text \<open>A context has no red-red edge when the root of the hole has colour \<open>c\<close>.\<close>

fun invc_ctx :: "frame list \<Rightarrow> color \<Rightarrow> bool" where
  "invc_ctx [] c = True"
| "invc_ctx (f # fs) c \<longleftrightarrow>
     invc (sibling f) \<and>
     (fcolor f = COLOR_RED \<longrightarrow> c = COLOR_BLACK \<and> rootcol (sibling f) = COLOR_BLACK) \<and>
     invc_ctx fs (fcolor f)"

definition ctx_root_black :: "frame list \<Rightarrow> bool" where
  "ctx_root_black ctx \<longleftrightarrow> ctx = [] \<or> fcolor (last ctx) = COLOR_BLACK"

definition fix_inv :: "frame list \<Rightarrow> tree \<Rightarrow> bool" where
  "fix_inv ctx t \<longleftrightarrow>
     rootcol t = COLOR_RED \<and> invc t \<and> invh t \<and> invh_ctx ctx (bheight t) \<and>
     invc_ctx ctx COLOR_BLACK \<and> ctx_root_black ctx"

fun path_to :: "int \<Rightarrow> tree \<Rightarrow> frame list \<Rightarrow> frame list" where
  "path_to k Leaf ctx = ctx"
| "path_to k (Node l a c x r) ctx =
     (if k < x then path_to k l (LeftOf a c x r # ctx) else path_to k r (RightOf a c x l # ctx))"

fun ins :: "int \<Rightarrow> addr \<Rightarrow> tree \<Rightarrow> tree" where
  "ins k n Leaf = Node Leaf n COLOR_RED k Leaf"
| "ins k n (Node l a c x r) =
     (if k < x then Node (ins k n l) a c x r else Node l a c x (ins k n r))"

fun dir_ok :: "int \<Rightarrow> frame \<Rightarrow> bool" where
  "dir_ok k (LeftOf a c x r) \<longleftrightarrow> k < x"
| "dir_ok k (RightOf a c x l) \<longleftrightarrow> \<not> k < x"

definition rbt :: "tree \<Rightarrow> bool" where
  "rbt T \<longleftrightarrow>
     sorted_wrt (<) (keys T) \<and> distinct (addrs T) \<and> invc T \<and> invh T \<and>
     rootcol T = COLOR_BLACK"

definition tree_ok :: "heap \<Rightarrow> RedBlackTree \<Rightarrow> tree \<Rightarrow> bool" where
  "tree_ok h t T \<longleftrightarrow> repr h None (root t) T \<and> rbt T \<and> numItems t = length (keys T)"

fun subtrees :: "tree \<Rightarrow> tree set" where
  "subtrees Leaf = {Leaf}"
| "subtrees (Node l a c k r) = insert (Node l a c k r) (subtrees l \<union> subtrees r)"

fun preorder :: "tree \<Rightarrow> addr list" where
  "preorder Leaf = []"
| "preorder (Node l a c k r) = a # preorder l @ preorder r"

fun postorder :: "tree \<Rightarrow> addr list" where
  "postorder Leaf = []"
| "postorder (Node l a c k r) = postorder l @ postorder r @ [a]"

fun same_shape :: "tree \<Rightarrow> tree \<Rightarrow> bool" where
  "same_shape Leaf Leaf \<longleftrightarrow> True"
| "same_shape (Node l a c k r) (Node l' a' c' k' r') \<longleftrightarrow>
     c = c' \<and> k = k' \<and> same_shape l l' \<and> same_shape r r'"
| "same_shape Leaf (Node l' a' c' k' r') \<longleftrightarrow> False"
| "same_shape (Node l a c k r) Leaf \<longleftrightarrow> False"

definition world_inv :: "memory \<Rightarrow> RedBlackTree list \<Rightarrow> tree list \<Rightarrow> bool" where
  "world_inv m ts Ts \<longleftrightarrow>
     length Ts = length ts \<and>
     (\<forall>i<length ts. tree_ok (cells m) (ts ! i) (Ts ! i) \<and> set (addrs (Ts ! i)) \<subseteq> {..<next_free m}) \<and>
     (\<forall>i<length ts. \<forall>j<length ts. i \<noteq> j \<longrightarrow> set (addrs (Ts ! i)) \<inter> set (addrs (Ts ! j)) = {})"

section \<open>Lemmas\<close>

subsection \<open>Heap writes, frames and the left rotation\<close>

lemma set_data_sel [simp]:
  "data (set_data h a v b) = (if b = a then v else data (h b))"
  "color (set_data h a v b) = color (h b)"
  "left (set_data h a v b) = left (h b)"
  "right (set_data h a v b) = right (h b)"
  "parent (set_data h a v b) = parent (h b)"
  "IsNullNode (set_data h a v b) = IsNullNode (h b)"
  by (simp_all add: set_data_def)

lemma set_color_sel [simp]:
  "data (set_color h a v b) = data (h b)"
  "color (set_color h a v b) = (if b = a then v else color (h b))"
  "left (set_color h a v b) = left (h b)"
  "right (set_color h a v b) = right (h b)"
  "parent (set_color h a v b) = parent (h b)"
  "IsNullNode (set_color h a v b) = IsNullNode (h b)"
  by (simp_all add: set_color_def)

lemma set_left_sel [simp]:
  "data (set_left h a v b) = data (h b)"
  "color (set_left h a v b) = color (h b)"
  "left (set_left h a v b) = (if b = a then v else left (h b))"
  "right (set_left h a v b) = right (h b)"
  "parent (set_left h a v b) = parent (h b)"
  "IsNullNode (set_left h a v b) = IsNullNode (h b)"
  by (simp_all add: set_left_def)

lemma set_right_sel [simp]:
  "data (set_right h a v b) = data (h b)"
  "color (set_right h a v b) = color (h b)"
  "left (set_right h a v b) = left (h b)"
  "right (set_right h a v b) = (if b = a then v else right (h b))"
  "parent (set_right h a v b) = parent (h b)"
  "IsNullNode (set_right h a v b) = IsNullNode (h b)"
  by (simp_all add: set_right_def)

lemma set_parent_sel [simp]:
  "data (set_parent h a v b) = data (h b)"
  "color (set_parent h a v b) = color (h b)"
  "left (set_parent h a v b) = left (h b)"
  "right (set_parent h a v b) = right (h b)"
  "parent (set_parent h a v b) = (if b = a then v else parent (h b))"
  "IsNullNode (set_parent h a v b) = IsNullNode (h b)"
  by (simp_all add: set_parent_def)

lemma set_IsNullNode_sel [simp]:
  "data (set_IsNullNode h a v b) = data (h b)"
  "color (set_IsNullNode h a v b) = color (h b)"
  "left (set_IsNullNode h a v b) = left (h b)"
  "right (set_IsNullNode h a v b) = right (h b)"
  "parent (set_IsNullNode h a v b) = parent (h b)"
  "IsNullNode (set_IsNullNode h a v b) = (if b = a then v else IsNullNode (h b))"
  by (simp_all add: set_IsNullNode_def)

lemma setter_other:
  "b \<noteq> a \<Longrightarrow> set_data h a d b = h b"
  "b \<noteq> a \<Longrightarrow> set_color h a c b = h b"
  "b \<noteq> a \<Longrightarrow> set_left h a p b = h b"
  "b \<noteq> a \<Longrightarrow> set_right h a p b = h b"
  "b \<noteq> a \<Longrightarrow> set_parent h a p b = h b"
  "b \<noteq> a \<Longrightarrow> set_IsNullNode h a n b = h b"
  by (simp_all add: set_data_def set_color_def set_left_def set_right_def set_parent_def
      set_IsNullNode_def)

lemma repr_cong: "(\<And>a. a \<in> set (addrs t) \<Longrightarrow> h' a = h a) \<Longrightarrow> repr h' par p t = repr h par p t"
  by (induction t arbitrary: par p) auto

lemma repr_frame [simp]:
  assumes "a \<notin> set (addrs t)"
  shows "repr (set_data h a d) par p t = repr h par p t"
    and "repr (set_color h a c) par p t = repr h par p t"
    and "repr (set_left h a q) par p t = repr h par p t"
    and "repr (set_right h a q) par p t = repr h par p t"
    and "repr (set_parent h a q) par p t = repr h par p t"
    and "repr (set_IsNullNode h a n) par p t = repr h par p t"
proof -
  have *: "\<And>b. b \<in> set (addrs t) \<Longrightarrow> b \<noteq> a"
    using assms by auto
  show "repr (set_data h a d) par p t = repr h par p t"
    by (rule repr_cong) (simp add: setter_other *)
  show "repr (set_color h a c) par p t = repr h par p t"
    by (rule repr_cong) (simp add: setter_other *)
  show "repr (set_left h a q) par p t = repr h par p t"
    by (rule repr_cong) (simp add: setter_other *)
  show "repr (set_right h a q) par p t = repr h par p t"
    by (rule repr_cong) (simp add: setter_other *)
  show "repr (set_parent h a q) par p t = repr h par p t"
    by (rule repr_cong) (simp add: setter_other *)
  show "repr (set_IsNullNode h a n) par p t = repr h par p t"
    by (rule repr_cong) (simp add: setter_other *)
qed

lemma repr_ctx_cong:
  "(\<And>a. a \<in> set (ctx_addrs ctx) \<Longrightarrow> h' a = h a) \<Longrightarrow> repr_ctx h' rt ctx p par = repr_ctx h rt ctx p par"
proof (induction ctx arbitrary: p par)
  case Nil
  then show ?case by simp
next
  case (Cons f fs)
  show ?case
  proof (cases f)
    case (LeftOf a c k r)
    have "repr h' (Some a) (right (h a)) r = repr h (Some a) (right (h a)) r"
      by (rule repr_cong) (simp add: Cons.prems LeftOf)
    moreover have "repr_ctx h' rt fs (Some a) (parent (h a)) = repr_ctx h rt fs (Some a) (parent (h a))"
      by (rule Cons.IH) (simp add: Cons.prems)
    moreover have "h' a = h a" by (simp add: Cons.prems LeftOf)
    ultimately show ?thesis by (simp add: LeftOf)
  next
    case (RightOf a c k l)
    have "repr h' (Some a) (left (h a)) l = repr h (Some a) (left (h a)) l"
      by (rule repr_cong) (simp add: Cons.prems RightOf)
    moreover have "repr_ctx h' rt fs (Some a) (parent (h a)) = repr_ctx h rt fs (Some a) (parent (h a))"
      by (rule Cons.IH) (simp add: Cons.prems)
    moreover have "h' a = h a" by (simp add: Cons.prems RightOf)
    ultimately show ?thesis by (simp add: RightOf)
  qed
qed

lemma repr_ctx_frame [simp]:
  assumes "a \<notin> set (ctx_addrs ctx)"
  shows "repr_ctx (set_data h a d) rt ctx p par = repr_ctx h rt ctx p par"
    and "repr_ctx (set_color h a c) rt ctx p par = repr_ctx h rt ctx p par"
    and "repr_ctx (set_left h a q) rt ctx p par = repr_ctx h rt ctx p par"
    and "repr_ctx (set_right h a q) rt ctx p par = repr_ctx h rt ctx p par"
    and "repr_ctx (set_parent h a q) rt ctx p par = repr_ctx h rt ctx p par"
proof -
  have *: "\<And>b. b \<in> set (ctx_addrs ctx) \<Longrightarrow> b \<noteq> a"
    using assms by auto
  show "repr_ctx (set_data h a d) rt ctx p par = repr_ctx h rt ctx p par"
    by (rule repr_ctx_cong) (simp add: setter_other *)
  show "repr_ctx (set_color h a c) rt ctx p par = repr_ctx h rt ctx p par"
    by (rule repr_ctx_cong) (simp add: setter_other *)
  show "repr_ctx (set_left h a q) rt ctx p par = repr_ctx h rt ctx p par"
    by (rule repr_ctx_cong) (simp add: setter_other *)
  show "repr_ctx (set_right h a q) rt ctx p par = repr_ctx h rt ctx p par"
    by (rule repr_ctx_cong) (simp add: setter_other *)
  show "repr_ctx (set_parent h a q) rt ctx p par = repr_ctx h rt ctx p par"
    by (rule repr_ctx_cong) (simp add: setter_other *)
qed

lemma repr_ptr: "repr h par p t \<Longrightarrow> p = None \<or> (\<exists>a. p = Some a \<and> a \<in> set (addrs t))"
  by (cases t) auto

lemma repr_ptr_notin: "repr h par p t \<Longrightarrow> x \<notin> set (addrs t) \<Longrightarrow> p \<noteq> Some x"
  by (cases t) auto

lemma addrs_plug: "set (addrs (plug ctx t)) = set (ctx_addrs ctx) \<union> set (addrs t)"
proof (induction ctx arbitrary: t)
  case (Cons f fs) then show ?case by (cases f) auto
qed simp

lemma distinct_plug:
  "distinct (addrs (plug ctx t)) \<longleftrightarrow>
   distinct (ctx_addrs ctx) \<and> distinct (addrs t) \<and> set (ctx_addrs ctx) \<inter> set (addrs t) = {}"
proof (induction ctx arbitrary: t)
  case (Cons f fs) then show ?case by (cases f) auto
qed simp

lemma repr_plug:
  "repr h None rt (plug ctx t) \<longleftrightarrow> (\<exists>p par. repr_ctx h rt ctx p par \<and> repr h par p t)"
proof (induction ctx arbitrary: t)
  case Nil
  then show ?case by auto
next
  case (Cons f fs)
  show ?case 
    by (cases f) (auto simp: Cons.IH)
qed

(* redirecting the hole of a context *)

lemma repr_ctx_redirect_root:
  "repr_ctx h rt [] p par \<Longrightarrow> repr_ctx h' q [] q par"
  by simp

lemma LeftRotate_zipper:
  assumes ctx: "repr_ctx h rt ctx (Some x) par"
    and t: "repr h par (Some x) (Node a x cx kx (Node b y cy ky c))"
    and d: "distinct (addrs (plug ctx (Node a x cx kx (Node b y cy ky c))))"
  shows "\<exists>h' rt'. LeftRotate h rt x = Inr (h', rt') \<and>
           repr_ctx h' rt' ctx (Some y) par \<and>
           repr h' par (Some y) (Node (Node a x cx kx b) y cy ky c) \<and>
           (\<forall>z. z \<notin> set (addrs (plug ctx (Node a x cx kx (Node b y cy ky c)))) \<longrightarrow> h' z = h z) \<and>
           (\<forall>z. color (h' z) = color (h z) \<and> data (h' z) = data (h z) \<and>
                IsNullNode (h' z) = IsNullNode (h z)) \<and>
           (\<forall>z. z \<noteq> x \<and> z \<noteq> y \<and> Some z \<noteq> left (h y) \<and> Some z \<noteq> par \<longrightarrow> h' z = h z) \<and>
           rt' = (if par = None then Some y else rt)"
proof (cases ctx)
  case Nil
  show ?thesis
  proof (cases b)
    case Leaf
    with Nil assms show ?thesis
      by (simp add: LeftRotate_def Let_def distinct_plug setter_other)
  next
    case (Node bl ba bc bk br)
    with Nil assms show ?thesis
      by (simp add: LeftRotate_def Let_def distinct_plug setter_other)
  qed
next
  case (Cons f fs)
  show ?thesis
  proof (cases f)
    case (LeftOf p cp kp s)
    show ?thesis
    proof (cases b)
      case Leaf
      with Cons LeftOf assms show ?thesis
        by (simp add: LeftRotate_def Let_def distinct_plug addrs_plug setter_other IsLeftChild_def)
    next
      case (Node bl ba bc bk br)
      with Cons LeftOf assms show ?thesis
        by (simp add: LeftRotate_def Let_def distinct_plug addrs_plug setter_other IsLeftChild_def)
    qed
  next
    case (RightOf p cp kp s)
    have nl: "left (h p) \<noteq> Some x"
      using Cons RightOf assms by (auto simp: distinct_plug dest: repr_ptr_notin)
    show ?thesis
    proof (cases b)
      case Leaf
      with Cons RightOf assms nl show ?thesis
        by (simp add: LeftRotate_def Let_def distinct_plug addrs_plug setter_other IsLeftChild_def)
    next
      case (Node bl ba bc bk br)
      with Cons RightOf assms nl show ?thesis
        by (simp add: LeftRotate_def Let_def distinct_plug addrs_plug setter_other IsLeftChild_def)
    qed
  qed
qed

subsection \<open>The right rotation and recolouring\<close>

lemma RightRotate_zipper:
  assumes ctx: "repr_ctx h rt ctx (Some x) par"
    and t: "repr h par (Some x) (Node (Node a y cy ky b) x cx kx c)"
    and d: "distinct (addrs (plug ctx (Node (Node a y cy ky b) x cx kx c)))"
  shows "\<exists>h' rt'. RightRotate h rt x = Inr (h', rt') \<and>
           repr_ctx h' rt' ctx (Some y) par \<and>
           repr h' par (Some y) (Node a y cy ky (Node b x cx kx c)) \<and>
           (\<forall>z. z \<notin> set (addrs (plug ctx (Node (Node a y cy ky b) x cx kx c))) \<longrightarrow> h' z = h z) \<and>
           (\<forall>z. color (h' z) = color (h z) \<and> data (h' z) = data (h z) \<and>
                IsNullNode (h' z) = IsNullNode (h z)) \<and>
           (\<forall>z. z \<noteq> x \<and> z \<noteq> y \<and> Some z \<noteq> right (h y) \<and> Some z \<noteq> par \<longrightarrow> h' z = h z) \<and>
           rt' = (if par = None then Some y else rt)"
proof (cases ctx)
  case Nil
  show ?thesis
  proof (cases b)
    case Leaf
    with Nil assms show ?thesis
      by (simp add: RightRotate_def Let_def distinct_plug setter_other)
  next
    case (Node bl ba bc bk br)
    with Nil assms show ?thesis
      by (simp add: RightRotate_def Let_def distinct_plug setter_other)
  qed
next
  case (Cons f fs)
  show ?thesis
  proof (cases f)
    case (RightOf p cp kp s)
    show ?thesis
    proof (cases b)
      case Leaf
      with Cons RightOf assms show ?thesis
        by (simp add: RightRotate_def Let_def distinct_plug addrs_plug setter_other IsRightChild_def)
    next
      case (Node bl ba bc bk br)
      with Cons RightOf assms show ?thesis
        by (simp add: RightRotate_def Let_def distinct_plug addrs_plug setter_other IsRightChild_def)
    qed
  next
    case (LeftOf p cp kp s)
    have nl: "right (h p) \<noteq> Some x"
      using Cons LeftOf assms by (auto simp: distinct_plug dest: repr_ptr_notin)
    show ?thesis
    proof (cases b)
      case Leaf
      with Cons LeftOf assms nl show ?thesis
        by (simp add: RightRotate_def Let_def distinct_plug addrs_plug setter_other IsRightChild_def)
    next
      case (Node bl ba bc bk br)
      with Cons LeftOf assms nl show ?thesis
        by (simp add: RightRotate_def Let_def distinct_plug addrs_plug setter_other IsRightChild_def)
    qed
  qed
qed

lemma set_color_zipper:
  assumes "repr_ctx h rt ctx (Some x) par"
    and "repr h par (Some x) (Node a x c k b)"
    and "distinct (addrs (plug ctx (Node a x c k b)))"
  shows "repr_ctx (set_color h x c') rt ctx (Some x) par \<and>
         repr (set_color h x c') par (Some x) (Node a x c' k b)"
  using assms by (simp add: distinct_plug)

lemma repr_root_addr: "repr h par p t \<Longrightarrow> p = root_addr t"
  by (cases t) auto

lemma bind_r_simps [simp]:
  "bind_r (Inl e) f = Inl e"
  "bind_r (Inr v) f = f v"
  by (simp_all add: bind_r_def)

lemma deref_simps [simp]:
  "deref None = Inl Null_dereference"
  "deref (Some a) = Inr a"
  by (simp_all add: deref_def)

lemma recolor_up_LL:
  assumes ctx: "repr_ctx h rt (LeftOf p cp kp s # LeftOf g cg kg (Node ul u COLOR_RED ku ur) # gs) (Some n) par"
    and t: "repr h par (Some n) (Node ta n cn kn tb)"
    and d: "distinct (addrs (plug (LeftOf p cp kp s # LeftOf g cg kg (Node ul u COLOR_RED ku ur) # gs) (Node ta n cn kn tb)))"
  shows "\<exists>h'. InsertFixUp_body h rt n = Inr (h', rt, g) \<and>
           repr_ctx h' rt gs (Some g) (parent (h g)) \<and>
           repr h' (parent (h g)) (Some g) (Node (Node (Node ta n cn kn tb) p COLOR_BLACK kp s) g COLOR_RED kg (Node ul u COLOR_BLACK ku ur)) \<and>
           (\<forall>z. z \<notin> {p, g, u} \<longrightarrow> h' z = h z)"
  using assms
  by (simp add: InsertFixUp_body_def IsLeftChild_def GetUncle_def recolor_up_def Let_def
         distinct_plug setter_other)

subsection \<open>The outer cases of the fix-up body\<close>

lemma uncle_test_black:
  assumes "repr h par q u" "rootcol u \<noteq> COLOR_RED"
  shows "q = None \<or> (\<exists>a. q = Some a \<and> color (h a) = COLOR_BLACK)"
  using assms by (cases u) (auto intro: color.exhaust)

lemma recolor_rotate_right:
  assumes ctx: "repr_ctx h rt (LeftOf p cp kp s # LeftOf g cg kg u # gs) (Some n) par"
    and t: "repr h par (Some n) (Node ta n cn kn tb)"
    and d: "distinct (addrs (plug (LeftOf p cp kp s # LeftOf g cg kg u # gs) (Node ta n cn kn tb)))"
  shows "\<exists>h' rt'. recolor_rotate RightRotate h rt n = Inr (h', rt', n) \<and>
           repr_ctx h' rt' (LeftOf p COLOR_BLACK kp (Node s g COLOR_RED kg u) # gs) (Some n) (Some p) \<and>
           repr h' (Some p) (Some n) (Node ta n cn kn tb) \<and>
           (\<forall>z. z \<notin> set (addrs (plug (LeftOf p cp kp s # LeftOf g cg kg u # gs) (Node ta n cn kn tb))) \<longrightarrow> h' z = h z)"
proof -
  let ?t = "Node ta n cn kn tb"
  define h2 where "h2 = set_color (set_color h p COLOR_BLACK) g COLOR_RED"
  have body: "recolor_rotate RightRotate h rt n = bind_r (RightRotate h2 rt g) (\<lambda>(h3, rt3). Inr (h3, rt3, n))"
    using ctx t d by (simp add: recolor_rotate_def Let_def distinct_plug h2_def)
  have c2: "repr_ctx h2 rt gs (Some g) (parent (h g))"
    and t2: "repr h2 (parent (h g)) (Some g) (Node (Node ?t p COLOR_BLACK kp s) g COLOR_RED kg u)"
    using ctx t d by (simp_all add: h2_def distinct_plug)
  have d2: "distinct (addrs (plug gs (Node (Node ?t p COLOR_BLACK kp s) g COLOR_RED kg u)))"
    using d by (simp add: distinct_plug)
  from RightRotate_zipper[OF c2 t2 d2] obtain h3 rt3 where
    rot: "RightRotate h2 rt g = Inr (h3, rt3)"
    and c3: "repr_ctx h3 rt3 gs (Some p) (parent (h g))"
    and t3: "repr h3 (parent (h g)) (Some p) (Node ?t p COLOR_BLACK kp (Node s g COLOR_RED kg u))"
    and f3: "\<forall>z. z \<notin> set (addrs (plug gs (Node (Node ?t p COLOR_BLACK kp s) g COLOR_RED kg u))) \<longrightarrow> h3 z = h2 z"
    by blast
  have fr: "\<forall>z. z \<notin> set (addrs (plug (LeftOf p cp kp s # LeftOf g cg kg u # gs) ?t)) \<longrightarrow> h3 z = h z"
    using f3 by (auto simp: addrs_plug h2_def setter_other)
  have "repr_ctx h3 rt3 (LeftOf p COLOR_BLACK kp (Node s g COLOR_RED kg u) # gs) (Some n) (Some p)
        \<and> repr h3 (Some p) (Some n) ?t"
    using c3 t3 by simp
  with body rot fr show ?thesis by auto
qed

lemma recolor_rotate_left:
  assumes ctx: "repr_ctx h rt (RightOf p cp kp s # RightOf g cg kg u # gs) (Some n) par"
    and t: "repr h par (Some n) (Node ta n cn kn tb)"
    and d: "distinct (addrs (plug (RightOf p cp kp s # RightOf g cg kg u # gs) (Node ta n cn kn tb)))"
  shows "\<exists>h' rt'. recolor_rotate LeftRotate h rt n = Inr (h', rt', n) \<and>
           repr_ctx h' rt' (RightOf p COLOR_BLACK kp (Node u g COLOR_RED kg s) # gs) (Some n) (Some p) \<and>
           repr h' (Some p) (Some n) (Node ta n cn kn tb) \<and>
           (\<forall>z. z \<notin> set (addrs (plug (RightOf p cp kp s # RightOf g cg kg u # gs) (Node ta n cn kn tb))) \<longrightarrow> h' z = h z)"
proof -
  let ?t = "Node ta n cn kn tb"
  define h2 where "h2 = set_color (set_color h p COLOR_BLACK) g COLOR_RED"
  have body: "recolor_rotate LeftRotate h rt n = bind_r (LeftRotate h2 rt g) (\<lambda>(h3, rt3). Inr (h3, rt3, n))"
    using ctx t d by (simp add: recolor_rotate_def Let_def distinct_plug h2_def)
  have c2: "repr_ctx h2 rt gs (Some g) (parent (h g))"
    and t2: "repr h2 (parent (h g)) (Some g) (Node u g COLOR_RED kg (Node s p COLOR_BLACK kp ?t))"
    using ctx t d by (simp_all add: h2_def distinct_plug)
  have d2: "distinct (addrs (plug gs (Node u g COLOR_RED kg (Node s p COLOR_BLACK kp ?t))))"
    using d by (simp add: distinct_plug)
  from LeftRotate_zipper[OF c2 t2 d2] obtain h3 rt3 where
    rot: "LeftRotate h2 rt g = Inr (h3, rt3)"
    and c3: "repr_ctx h3 rt3 gs (Some p) (parent (h g))"
    and t3: "repr h3 (parent (h g)) (Some p) (Node (Node u g COLOR_RED kg s) p COLOR_BLACK kp ?t)"
    and f3: "\<forall>z. z \<notin> set (addrs (plug gs (Node u g COLOR_RED kg (Node s p COLOR_BLACK kp ?t)))) \<longrightarrow> h3 z = h2 z"
    by blast
  have fr: "\<forall>z. z \<notin> set (addrs (plug (RightOf p cp kp s # RightOf g cg kg u # gs) ?t)) \<longrightarrow> h3 z = h z"
    using f3 by (auto simp: addrs_plug h2_def setter_other)
  have "repr_ctx h3 rt3 (RightOf p COLOR_BLACK kp (Node u g COLOR_RED kg s) # gs) (Some n) (Some p)
        \<and> repr h3 (Some p) (Some n) ?t"
    using c3 t3 by simp
  with body rot fr show ?thesis by auto
qed

lemma body_LL:
  assumes ctx: "repr_ctx h rt (LeftOf p cp kp s # LeftOf g cg kg u # gs) (Some n) par"
    and t: "repr h par (Some n) (Node ta n cn kn tb)"
    and d: "distinct (addrs (plug (LeftOf p cp kp s # LeftOf g cg kg u # gs) (Node ta n cn kn tb)))"
    and fs: "fix_step (LeftOf p cp kp s # LeftOf g cg kg u # gs) (Node ta n cn kn tb) = (ctx', t')"
  shows "\<exists>h' rt' n' par'. InsertFixUp_body h rt n = Inr (h', rt', n') \<and>
           repr_ctx h' rt' ctx' (Some n') par' \<and> repr h' par' (Some n') t' \<and>
           (\<forall>z. z \<notin> set (addrs (plug (LeftOf p cp kp s # LeftOf g cg kg u # gs) (Node ta n cn kn tb))) \<longrightarrow> h' z = h z)"
proof (cases "rootcol u = COLOR_RED")
  case True
  then obtain ul ua ku ur where u: "u = Node ul ua COLOR_RED ku ur"
    by (cases u) auto
  have "InsertFixUp_body h rt n =
          Inr (set_color (set_color (set_color h p COLOR_BLACK) ua COLOR_BLACK) g COLOR_RED, rt, g)"
    using ctx t d unfolding u
    by (simp add: InsertFixUp_body_def IsLeftChild_def GetUncle_def recolor_up_def Let_def
         distinct_plug)
  moreover have "repr_ctx (set_color (set_color (set_color h p COLOR_BLACK) ua COLOR_BLACK) g COLOR_RED)
                   rt ctx' (Some g) (parent (h g)) \<and>
                 repr (set_color (set_color (set_color h p COLOR_BLACK) ua COLOR_BLACK) g COLOR_RED)
                   (parent (h g)) (Some g) t'"
    using ctx t d fs unfolding u by (auto simp add: distinct_plug)
  ultimately show ?thesis
    unfolding u by (auto simp: addrs_plug setter_other)
next
  case False
  have unc: "right (h g) = None \<or> (\<exists>a. right (h g) = Some a \<and> color (h a) = COLOR_BLACK)"
    using ctx False by (auto dest: uncle_test_black)
  have nr: "right (h p) \<noteq> Some n"
    using ctx d by (auto simp: distinct_plug dest: repr_ptr_notin)
  have body: "InsertFixUp_body h rt n = recolor_rotate RightRotate h rt n"
    using ctx t d unc nr
    by (auto simp add: InsertFixUp_body_def IsLeftChild_def IsRightChild_def GetUncle_def)
  from fs False have res: "ctx' = LeftOf p COLOR_BLACK kp (Node s g COLOR_RED kg u) # gs"
      "t' = Node ta n cn kn tb"
    by auto
  from recolor_rotate_right[OF ctx t d] show ?thesis
    unfolding res body by blast
qed

lemma body_RR:
  assumes ctx: "repr_ctx h rt (RightOf p cp kp s # RightOf g cg kg u # gs) (Some n) par"
    and t: "repr h par (Some n) (Node ta n cn kn tb)"
    and d: "distinct (addrs (plug (RightOf p cp kp s # RightOf g cg kg u # gs) (Node ta n cn kn tb)))"
    and fs: "fix_step (RightOf p cp kp s # RightOf g cg kg u # gs) (Node ta n cn kn tb) = (ctx', t')"
  shows "\<exists>h' rt' n' par'. InsertFixUp_body h rt n = Inr (h', rt', n') \<and>
           repr_ctx h' rt' ctx' (Some n') par' \<and> repr h' par' (Some n') t' \<and>
           (\<forall>z. z \<notin> set (addrs (plug (RightOf p cp kp s # RightOf g cg kg u # gs) (Node ta n cn kn tb))) \<longrightarrow> h' z = h z)"
proof (cases "rootcol u = COLOR_RED")
  case True
  then obtain ul ua ku ur where u: "u = Node ul ua COLOR_RED ku ur"
    by (cases u) auto
  have np: "left (h g) \<noteq> Some p"
    using ctx d by (auto simp: distinct_plug dest: repr_ptr_notin)
  have "InsertFixUp_body h rt n =
          Inr (set_color (set_color (set_color h p COLOR_BLACK) ua COLOR_BLACK) g COLOR_RED, rt, g)"
    using ctx t d np unfolding u
    by (simp add: InsertFixUp_body_def IsLeftChild_def GetUncle_def recolor_up_def Let_def
         distinct_plug)
  moreover have "repr_ctx (set_color (set_color (set_color h p COLOR_BLACK) ua COLOR_BLACK) g COLOR_RED)
                   rt ctx' (Some g) (parent (h g)) \<and>
                 repr (set_color (set_color (set_color h p COLOR_BLACK) ua COLOR_BLACK) g COLOR_RED)
                   (parent (h g)) (Some g) t'"
    using ctx t d fs unfolding u by (auto simp add: distinct_plug)
  ultimately show ?thesis
    unfolding u by (auto simp: addrs_plug setter_other)
next
  case False
  have unc: "left (h g) = None \<or> (\<exists>a. left (h g) = Some a \<and> color (h a) = COLOR_BLACK)"
    using ctx False by (auto dest: uncle_test_black)
  have np: "left (h g) \<noteq> Some p"
    using ctx d by (auto simp: distinct_plug dest: repr_ptr_notin)
  have nr: "left (h p) \<noteq> Some n"
    using ctx d by (auto simp: distinct_plug dest: repr_ptr_notin)
  have body: "InsertFixUp_body h rt n = recolor_rotate LeftRotate h rt n"
    using ctx t d unc nr np
    by (auto simp add: InsertFixUp_body_def IsLeftChild_def IsRightChild_def GetUncle_def)
  from fs False have res: "ctx' = RightOf p COLOR_BLACK kp (Node u g COLOR_RED kg s) # gs"
      "t' = Node ta n cn kn tb"
    by auto
  from recolor_rotate_left[OF ctx t d] show ?thesis
    unfolding res body by blast
qed

subsection \<open>The inner cases of the fix-up body\<close>

lemma body_LR:
  assumes ctx: "repr_ctx h rt (RightOf p cp kp s # LeftOf g cg kg u # gs) (Some n) par"
    and t: "repr h par (Some n) (Node ta n cn kn tb)"
    and d: "distinct (addrs (plug (RightOf p cp kp s # LeftOf g cg kg u # gs) (Node ta n cn kn tb)))"
    and fs: "fix_step (RightOf p cp kp s # LeftOf g cg kg u # gs) (Node ta n cn kn tb) = (ctx', t')"
  shows "\<exists>h' rt' n' par'. InsertFixUp_body h rt n = Inr (h', rt', n') \<and>
           repr_ctx h' rt' ctx' (Some n') par' \<and> repr h' par' (Some n') t' \<and>
           (\<forall>z. z \<notin> set (addrs (plug (RightOf p cp kp s # LeftOf g cg kg u # gs) (Node ta n cn kn tb))) \<longrightarrow> h' z = h z)"
proof (cases "rootcol u = COLOR_RED")
  case True
  then obtain ul ua ku ur where u: "u = Node ul ua COLOR_RED ku ur"
    by (cases u) auto
  have "InsertFixUp_body h rt n =
          Inr (set_color (set_color (set_color h p COLOR_BLACK) ua COLOR_BLACK) g COLOR_RED, rt, g)"
    using ctx t d unfolding u
    by (simp add: InsertFixUp_body_def IsLeftChild_def GetUncle_def recolor_up_def Let_def
         distinct_plug)
  moreover have "repr_ctx (set_color (set_color (set_color h p COLOR_BLACK) ua COLOR_BLACK) g COLOR_RED)
                   rt ctx' (Some g) (parent (h g)) \<and>
                 repr (set_color (set_color (set_color h p COLOR_BLACK) ua COLOR_BLACK) g COLOR_RED)
                   (parent (h g)) (Some g) t'"
    using ctx t d fs unfolding u by (auto simp add: distinct_plug)
  ultimately show ?thesis
    unfolding u by (auto simp: addrs_plug setter_other)
next
  case False
  have unc: "right (h g) = None \<or> (\<exists>a. right (h g) = Some a \<and> color (h a) = COLOR_BLACK)"
    using ctx False by (auto dest: uncle_test_black)
  have body: "InsertFixUp_body h rt n =
      bind_r (LeftRotate h rt p) (\<lambda>(h1, rt1). recolor_rotate RightRotate h1 rt1 p)"
    using ctx t d unc
    by (auto simp add: InsertFixUp_body_def IsLeftChild_def IsRightChild_def GetUncle_def)
  have c1: "repr_ctx h rt (LeftOf g cg kg u # gs) (Some p) (Some g)"
    and t1: "repr h (Some g) (Some p) (Node s p cp kp (Node ta n cn kn tb))"
    using ctx t by simp_all
  have d1: "distinct (addrs (plug (LeftOf g cg kg u # gs) (Node s p cp kp (Node ta n cn kn tb))))"
    using d by (simp add: distinct_plug)
  from LeftRotate_zipper[OF c1 t1 d1] obtain h1 rt1 where
    rot: "LeftRotate h rt p = Inr (h1, rt1)"
    and c2: "repr_ctx h1 rt1 (LeftOf g cg kg u # gs) (Some n) (Some g)"
    and t2: "repr h1 (Some g) (Some n) (Node (Node s p cp kp ta) n cn kn tb)"
    and f1: "\<forall>z. z \<notin> set (addrs (plug (LeftOf g cg kg u # gs) (Node s p cp kp (Node ta n cn kn tb)))) \<longrightarrow> h1 z = h z"
    by blast
  have c3: "repr_ctx h1 rt1 (LeftOf n cn kn tb # LeftOf g cg kg u # gs) (Some p) (Some n)"
    and t3: "repr h1 (Some n) (Some p) (Node s p cp kp ta)"
    using c2 t2 by simp_all
  have d3: "distinct (addrs (plug (LeftOf n cn kn tb # LeftOf g cg kg u # gs) (Node s p cp kp ta)))"
    using d by (simp add: distinct_plug)
  from recolor_rotate_right[OF c3 t3 d3] obtain h' rt' where
    rr: "recolor_rotate RightRotate h1 rt1 p = Inr (h', rt', p)"
    and c4: "repr_ctx h' rt' (LeftOf n COLOR_BLACK kn (Node tb g COLOR_RED kg u) # gs) (Some p) (Some n)"
    and t4: "repr h' (Some n) (Some p) (Node s p cp kp ta)"
    and f2: "\<forall>z. z \<notin> set (addrs (plug (LeftOf n cn kn tb # LeftOf g cg kg u # gs) (Node s p cp kp ta))) \<longrightarrow> h' z = h1 z"
    by blast
  from fs False have res: "ctx' = LeftOf n COLOR_BLACK kn (Node tb g COLOR_RED kg u) # gs"
      "t' = Node s p cp kp ta"
    by auto
  have fr: "\<forall>z. z \<notin> set (addrs (plug (RightOf p cp kp s # LeftOf g cg kg u # gs) (Node ta n cn kn tb))) \<longrightarrow> h' z = h z"
    using f1 f2 by (auto simp: addrs_plug)
  show ?thesis
    unfolding res body rot using rr c4 t4 fr by auto
qed

lemma body_RL:
  assumes ctx: "repr_ctx h rt (LeftOf p cp kp s # RightOf g cg kg u # gs) (Some n) par"
    and t: "repr h par (Some n) (Node ta n cn kn tb)"
    and d: "distinct (addrs (plug (LeftOf p cp kp s # RightOf g cg kg u # gs) (Node ta n cn kn tb)))"
    and fs: "fix_step (LeftOf p cp kp s # RightOf g cg kg u # gs) (Node ta n cn kn tb) = (ctx', t')"
  shows "\<exists>h' rt' n' par'. InsertFixUp_body h rt n = Inr (h', rt', n') \<and>
           repr_ctx h' rt' ctx' (Some n') par' \<and> repr h' par' (Some n') t' \<and>
           (\<forall>z. z \<notin> set (addrs (plug (LeftOf p cp kp s # RightOf g cg kg u # gs) (Node ta n cn kn tb))) \<longrightarrow> h' z = h z)"
proof (cases "rootcol u = COLOR_RED")
  case True
  then obtain ul ua ku ur where u: "u = Node ul ua COLOR_RED ku ur"
    by (cases u) auto
  have np: "left (h g) \<noteq> Some p"
    using ctx d by (auto simp: distinct_plug dest: repr_ptr_notin)
  have "InsertFixUp_body h rt n =
          Inr (set_color (set_color (set_color h p COLOR_BLACK) ua COLOR_BLACK) g COLOR_RED, rt, g)"
    using ctx t d np unfolding u
    by (simp add: InsertFixUp_body_def IsLeftChild_def GetUncle_def recolor_up_def Let_def
         distinct_plug)
  moreover have "repr_ctx (set_color (set_color (set_color h p COLOR_BLACK) ua COLOR_BLACK) g COLOR_RED)
                   rt ctx' (Some g) (parent (h g)) \<and>
                 repr (set_color (set_color (set_color h p COLOR_BLACK) ua COLOR_BLACK) g COLOR_RED)
                   (parent (h g)) (Some g) t'"
    using ctx t d fs unfolding u by (auto simp add: distinct_plug)
  ultimately show ?thesis
    unfolding u by (auto simp: addrs_plug setter_other)
next
  case False
  have unc: "left (h g) = None \<or> (\<exists>a. left (h g) = Some a \<and> color (h a) = COLOR_BLACK)"
    using ctx False by (auto dest: uncle_test_black)
  have np: "left (h g) \<noteq> Some p"
    using ctx d by (auto simp: distinct_plug dest: repr_ptr_notin)
  have body: "InsertFixUp_body h rt n =
      bind_r (RightRotate h rt p) (\<lambda>(h1, rt1). recolor_rotate LeftRotate h1 rt1 p)"
    using ctx t d unc np
    by (auto simp add: InsertFixUp_body_def IsLeftChild_def IsRightChild_def GetUncle_def)
  have c1: "repr_ctx h rt (RightOf g cg kg u # gs) (Some p) (Some g)"
    and t1: "repr h (Some g) (Some p) (Node (Node ta n cn kn tb) p cp kp s)"
    using ctx t by simp_all
  have d1: "distinct (addrs (plug (RightOf g cg kg u # gs) (Node (Node ta n cn kn tb) p cp kp s)))"
    using d by (simp add: distinct_plug)
  from RightRotate_zipper[OF c1 t1 d1] obtain h1 rt1 where
    rot: "RightRotate h rt p = Inr (h1, rt1)"
    and c2: "repr_ctx h1 rt1 (RightOf g cg kg u # gs) (Some n) (Some g)"
    and t2: "repr h1 (Some g) (Some n) (Node ta n cn kn (Node tb p cp kp s))"
    and f1: "\<forall>z. z \<notin> set (addrs (plug (RightOf g cg kg u # gs) (Node (Node ta n cn kn tb) p cp kp s))) \<longrightarrow> h1 z = h z"
    by blast
  have c3: "repr_ctx h1 rt1 (RightOf n cn kn ta # RightOf g cg kg u # gs) (Some p) (Some n)"
    and t3: "repr h1 (Some n) (Some p) (Node tb p cp kp s)"
    using c2 t2 by simp_all
  have d3: "distinct (addrs (plug (RightOf n cn kn ta # RightOf g cg kg u # gs) (Node tb p cp kp s)))"
    using d by (simp add: distinct_plug)
  from recolor_rotate_left[OF c3 t3 d3] obtain h' rt' where
    rr: "recolor_rotate LeftRotate h1 rt1 p = Inr (h', rt', p)"
    and c4: "repr_ctx h' rt' (RightOf n COLOR_BLACK kn (Node u g COLOR_RED kg ta) # gs) (Some p) (Some n)"
    and t4: "repr h' (Some n) (Some p) (Node tb p cp kp s)"
    and f2: "\<forall>z. z \<notin> set (addrs (plug (RightOf n cn kn ta # RightOf g cg kg u # gs) (Node tb p cp kp s))) \<longrightarrow> h' z = h1 z"
    by blast
  from fs False have res: "ctx' = RightOf n COLOR_BLACK kn (Node u g COLOR_RED kg ta) # gs"
      "t' = Node tb p cp kp s"
    by auto
  have fr: "\<forall>z. z \<notin> set (addrs (plug (LeftOf p cp kp s # RightOf g cg kg u # gs) (Node ta n cn kn tb))) \<longrightarrow> h' z = h z"
    using f1 f2 by (auto simp: addrs_plug)
  show ?thesis
    unfolding res body rot using rr c4 t4 fr by auto
qed

lemma body_refines:
  assumes ctx: "repr_ctx h rt (f # g # gs) (Some n) par"
    and t: "repr h par (Some n) (Node ta n cn kn tb)"
    and d: "distinct (addrs (plug (f # g # gs) (Node ta n cn kn tb)))"
    and fs: "fix_step (f # g # gs) (Node ta n cn kn tb) = (ctx', t')"
  shows "\<exists>h' rt' n' par'. InsertFixUp_body h rt n = Inr (h', rt', n') \<and>
           repr_ctx h' rt' ctx' (Some n') par' \<and> repr h' par' (Some n') t' \<and>
           (\<forall>z. z \<notin> set (addrs (plug (f # g # gs) (Node ta n cn kn tb))) \<longrightarrow> h' z = h z)"
proof (cases f)
  case f: (LeftOf p cp kp s)
  show ?thesis
  proof (cases g)
    case (LeftOf g' cg kg u)
    from body_LL[OF ctx[unfolded f LeftOf] t d[unfolded f LeftOf] fs[unfolded f LeftOf]]
    show ?thesis unfolding f LeftOf .
  next
    case (RightOf g' cg kg u)
    from body_RL[OF ctx[unfolded f RightOf] t d[unfolded f RightOf] fs[unfolded f RightOf]]
    show ?thesis unfolding f RightOf .
  qed
next
  case f: (RightOf p cp kp s)
  show ?thesis
  proof (cases g)
    case (LeftOf g' cg kg u)
    from body_LR[OF ctx[unfolded f LeftOf] t d[unfolded f LeftOf] fs[unfolded f LeftOf]]
    show ?thesis unfolding f LeftOf .
  next
    case (RightOf g' cg kg u)
    from body_RR[OF ctx[unfolded f RightOf] t d[unfolded f RightOf] fs[unfolded f RightOf]]
    show ?thesis unfolding f RightOf .
  qed
qed

subsection \<open>Invariants of contexts\<close>

lemma color_neq:
  "(c \<noteq> COLOR_RED) = (c = COLOR_BLACK)" "(c \<noteq> COLOR_BLACK) = (c = COLOR_RED)"
  by (cases c; simp)+

lemma bheight_fill:
  "bheight (sibling f) = bheight t \<Longrightarrow>
   bheight (fill f t) = (if fcolor f = COLOR_BLACK then Suc (bheight t) else bheight t)"
  by (cases f) auto

lemma invh_fill: "invh (fill f t) \<longleftrightarrow> invh t \<and> invh (sibling f) \<and> bheight (sibling f) = bheight t"
  by (cases f) auto

lemma invh_plug: "invh (plug ctx t) \<longleftrightarrow> invh t \<and> invh_ctx ctx (bheight t)"
proof (induction ctx arbitrary: t)
  case Nil
  show ?case by simp
next
  case (Cons f fs)
  show ?case
  proof (cases "bheight (sibling f) = bheight t")
    case True
    then show ?thesis
      using Cons.IH[of "fill f t"] by (simp add: invh_fill bheight_fill)
  next
    case False
    then show ?thesis
      using Cons.IH[of "fill f t"] by (simp add: invh_fill)
  qed
qed

lemma invc_fill:
  "invc (fill f t) \<longleftrightarrow> invc t \<and> invc (sibling f) \<and>
     (fcolor f = COLOR_RED \<longrightarrow> rootcol t = COLOR_BLACK \<and> rootcol (sibling f) = COLOR_BLACK)"
  by (cases f) (simp_all, blast)

lemma rootcol_fill [simp]: "rootcol (fill f t) = fcolor f"
  by (cases f) auto

lemma invc_plug: "invc (plug ctx t) \<longleftrightarrow> invc t \<and> invc_ctx ctx (rootcol t)"
  by (induction ctx arbitrary: t) (auto simp: invc_fill)

lemma rootcol_plug: "rootcol (plug ctx t) = (if ctx = [] then rootcol t else fcolor (last ctx))"
  by (induction ctx arbitrary: t) auto

lemma addrs_fill_cong: "addrs t = addrs t' \<Longrightarrow> addrs (fill f t) = addrs (fill f t')"
  by (cases f) simp_all

lemma addrs_plug_cong: "addrs t = addrs t' \<Longrightarrow> addrs (plug ctx t) = addrs (plug ctx t')"
proof (induction ctx arbitrary: t t')
  case (Cons f fs)
  from Cons.prems have "addrs (fill f t) = addrs (fill f t')"
    by (rule addrs_fill_cong)
  then show ?case unfolding plug.simps by (rule Cons.IH)
qed simp

lemma keys_fill_cong: "keys t = keys t' \<Longrightarrow> keys (fill f t) = keys (fill f t')"
  by (cases f) simp_all

lemma keys_plug_cong: "keys t = keys t' \<Longrightarrow> keys (plug ctx t) = keys (plug ctx t')"
proof (induction ctx arbitrary: t t')
  case (Cons f fs)
  from Cons.prems have "keys (fill f t) = keys (fill f t')"
    by (rule keys_fill_cong)
  then show ?case unfolding plug.simps by (rule Cons.IH)
qed simp

lemma addrs_paint [simp]: "addrs (paint c t) = addrs t"
  by (cases t) auto

lemma keys_paint [simp]: "keys (paint c t) = keys t"
  by (cases t) auto

lemma fix_step_addrs:
  "fix_step (f # g # gs) (Node ta n cn kn tb) = (ctx', t') \<Longrightarrow>
   addrs (plug ctx' t') = addrs (plug (f # g # gs) (Node ta n cn kn tb))"
  by (cases f; cases g) (auto split: if_splits intro!: addrs_plug_cong)

lemma fix_step_keys:
  "fix_step (f # g # gs) (Node ta n cn kn tb) = (ctx', t') \<Longrightarrow>
   keys (plug ctx' t') = keys (plug (f # g # gs) (Node ta n cn kn tb))"
  by (cases f; cases g) (auto split: if_splits intro!: keys_plug_cong)

lemma fix_step_length:
  "fix_step (f # g # gs) (Node ta n cn kn tb) = (ctx', t') \<Longrightarrow> length ctx' < length (f # g # gs)"
  by (cases f; cases g) (auto split: if_splits)

subsection \<open>A pass of the fix-up loop keeps the invariant\<close>

lemma ctx_root_black_tl: "ctx_root_black (g # gs) \<Longrightarrow> ctx_root_black gs"
  by (cases gs) (simp_all add: ctx_root_black_def)

lemma ctx_root_black_push: "ctx_root_black (g # gs) \<Longrightarrow> fcolor f = COLOR_BLACK \<Longrightarrow> ctx_root_black (f # gs)"
  by (cases gs) (simp_all add: ctx_root_black_def)

lemma invh_paint [simp]: "invh (paint c t) = invh t"
  by (cases t) simp_all

lemma invc_paint_black: "invc t \<Longrightarrow> invc (paint COLOR_BLACK t)"
  by (cases t) simp_all

lemma red_node: "rootcol u = COLOR_RED \<Longrightarrow> \<exists>l a k r. u = Node l a COLOR_RED k r"
  by (cases u) simp_all

lemma color_cases: "c = COLOR_RED \<or> c = COLOR_BLACK"
  by (cases c) simp_all

lemma fix_step_inv:
  assumes inv: "fix_inv (f # g # gs) (Node ta n cn kn tb)" and red: "fcolor f = COLOR_RED"
    and fs: "fix_step (f # g # gs) (Node ta n cn kn tb) = (ctx', t')"
  shows "fix_inv ctx' t'"
proof -
  let ?t = "Node ta n cn kn tb"
  let ?b = "bheight ?t"
  from inv have rc: "rootcol ?t = COLOR_RED" and ct: "invc ?t" and ht: "invh ?t"
    and hc: "invh_ctx (f # g # gs) ?b" and cc: "invc_ctx (f # g # gs) COLOR_BLACK"
    and rb0: "ctx_root_black (f # g # gs)"
    unfolding fix_inv_def by blast+
  from rc have cn: "cn = COLOR_RED" by simp
  from rb0 have rb: "ctx_root_black (g # gs)" by (simp add: ctx_root_black_def)
  from cc red have gb: "fcolor g = COLOR_BLACK"
    using color_cases[of "fcolor g"] by auto
  from cc red have sb: "rootcol (sibling f) = COLOR_BLACK" and cs: "invc (sibling f)"
    and cu: "invc (sibling g)" and cgs: "invc_ctx gs COLOR_BLACK"
    using gb by auto
  from hc red gb have hs: "invh (sibling f)" "bheight (sibling f) = ?b"
    and hu: "invh (sibling g)" "bheight (sibling g) = ?b" and hgs: "invh_ctx gs (Suc ?b)"
    by auto
  from rb have rgs: "ctx_root_black gs" by (rule ctx_root_black_tl)
  from ct cn have tab: "rootcol ta = COLOR_BLACK" "rootcol tb = COLOR_BLACK" "invc ta" "invc tb"
    by auto
  from ht have htab: "invh ta" "invh tb" "bheight ta = bheight tb" by auto
  have b: "?b = bheight ta" using cn by simp
  show ?thesis
  proof (cases "rootcol (sibling g) = COLOR_RED")
    case True
    then obtain ul ua ku ur where u: "sibling g = Node ul ua COLOR_RED ku ur"
      using red_node by blast
    show ?thesis
      using fs red gb sb cs cu cgs hs hu hgs rgs ct ht cn u
      by (cases f; cases g) (auto simp: fix_inv_def)
  next
    case False
    then have ub: "rootcol (sibling g) = COLOR_BLACK"
      using color_cases[of "rootcol (sibling g)"] by auto
    have r1: "\<And>f'. ctx_root_black (f' # gs) = (if gs = [] then fcolor f' = COLOR_BLACK else True)"
      using rgs by (cases gs) (simp_all add: ctx_root_black_def)
    show ?thesis
    proof (cases f)
      case f: (LeftOf p cp kp s)
      show ?thesis
      proof (cases g)
        case g: (LeftOf g' cg kg u)
        from fs ub have res: "ctx' = LeftOf p COLOR_BLACK kp (Node s g' COLOR_RED kg u) # gs" "t' = ?t"
          unfolding f g by auto
        have "invh_ctx ctx' (bheight t')"
          unfolding res using hs hu hgs unfolding f g by simp
        moreover have "invc_ctx ctx' COLOR_BLACK"
          unfolding res using sb cs cu cgs ub unfolding f g by simp
        moreover have "ctx_root_black ctx'"
          unfolding res by (simp add: r1)
        ultimately show ?thesis
          unfolding fix_inv_def using rc ct ht res by simp
      next
        case g: (RightOf g' cg kg u)
        from fs ub have res: "ctx' = RightOf n COLOR_BLACK kn (Node u g' COLOR_RED kg ta) # gs"
            "t' = Node tb p cp kp s"
          unfolding f g by auto
        from red have cp: "cp = COLOR_RED" unfolding f by simp
        have bs: "bheight s = bheight tb" "bheight u = bheight ta"
          using hs hu htab b unfolding f g by simp_all
        have "invh_ctx ctx' (bheight t')"
          unfolding res using bs hs(1) hu(1) hgs htab b cp unfolding f g by simp
        moreover have "invc_ctx ctx' COLOR_BLACK"
          unfolding res using sb cs cu cgs ub tab unfolding f g by simp
        moreover have "ctx_root_black ctx'"
          unfolding res by (simp add: r1)
        moreover have "invc t'" "invh t'" "rootcol t' = COLOR_RED"
          unfolding res using sb cs tab htab hs(1) bs cp unfolding f g by simp_all
        ultimately show ?thesis
          unfolding fix_inv_def by simp
      qed
    next
      case f: (RightOf p cp kp s)
      from red have cp: "cp = COLOR_RED" unfolding f by simp
      show ?thesis
      proof (cases g)
        case g: (LeftOf g' cg kg u)
        from fs ub have res: "ctx' = LeftOf n COLOR_BLACK kn (Node tb g' COLOR_RED kg u) # gs"
            "t' = Node s p cp kp ta"
          unfolding f g by auto
        have bs: "bheight s = bheight ta" "bheight u = bheight tb"
          using hs hu htab b unfolding f g by simp_all
        have "invh_ctx ctx' (bheight t')"
          unfolding res using bs hs(1) hu(1) hgs htab b cp unfolding f g by simp
        moreover have "invc_ctx ctx' COLOR_BLACK"
          unfolding res using sb cs cu cgs ub tab unfolding f g by simp
        moreover have "ctx_root_black ctx'"
          unfolding res by (simp add: r1)
        moreover have "invc t'" "invh t'" "rootcol t' = COLOR_RED"
          unfolding res using sb cs tab htab hs(1) bs cp unfolding f g by simp_all
        ultimately show ?thesis
          unfolding fix_inv_def by simp
      next
        case g: (RightOf g' cg kg u)
        from fs ub have res: "ctx' = RightOf p COLOR_BLACK kp (Node u g' COLOR_RED kg s) # gs" "t' = ?t"
          unfolding f g by auto
        have "invh_ctx ctx' (bheight t')"
          unfolding res using hs hu hgs unfolding f g by simp
        moreover have "invc_ctx ctx' COLOR_BLACK"
          unfolding res using sb cs cu cgs ub unfolding f g by simp
        moreover have "ctx_root_black ctx'"
          unfolding res by (simp add: r1)
        ultimately show ?thesis
          unfolding fix_inv_def using rc ct ht res by simp
      qed
    qed
  qed
qed

subsection \<open>The fix-up loop\<close>

lemma faddr_in_ctx: "f \<in> set ctx \<Longrightarrow> faddr f \<in> set (ctx_addrs ctx)"
proof (induction ctx)
  case (Cons g gs)
  then show ?case by (cases g; cases f) auto
qed simp

lemma repr_ctx_root: "repr_ctx h rt ctx p par \<Longrightarrow> ctx \<noteq> [] \<Longrightarrow> rt = Some (faddr (last ctx))"
proof (induction ctx arbitrary: p par)
  case (Cons f fs)
  then show ?case by (cases f; cases fs) auto
qed simp

lemma repr_ctx_parent: "repr_ctx h rt (f # fs) p par \<Longrightarrow> par = Some (faddr f) \<and> color (h (faddr f)) = fcolor f"
  by (cases f) auto

lemma repr_paint_root:
  "repr h None (Some r) T \<Longrightarrow> distinct (addrs T) \<Longrightarrow> repr (set_color h r c) None (Some r) (paint c T)"
  by (cases T) auto

lemma InsertFixUp_exit:
  assumes c: "InsertFixUp_cond h rt n = Inr False"
    and r: "repr h None rt T" and d: "distinct (addrs T)" and ne: "T \<noteq> Leaf"
    and ic: "invc T" and ih: "invh T"
  shows "\<exists>h' rt' T'. InsertFixUp h rt n = Some (Inr (h', rt')) \<and> repr h' None rt' T' \<and>
           addrs T' = addrs T \<and> keys T' = keys T \<and> invc T' \<and> invh T' \<and>
           rootcol T' = COLOR_BLACK \<and> (\<forall>z. z \<notin> set (addrs T) \<longrightarrow> h' z = h z)"
proof -
  from r ne obtain l a cl k rr where T: "T = Node l a cl k rr" and rt: "rt = Some a"
    by (cases T) auto
  have run: "InsertFixUp h rt n = Some (Inr (set_color h a COLOR_BLACK, rt))"
    by (subst InsertFixUp.simps) (simp add: c, simp add: rt)
  have "repr (set_color h a COLOR_BLACK) None rt (paint COLOR_BLACK T)"
    using r d unfolding rt by (rule repr_paint_root)
  moreover have "invc (paint COLOR_BLACK T)" using ic by (rule invc_paint_black)
  moreover have "rootcol (paint COLOR_BLACK T) = COLOR_BLACK" by (simp add: T)
  moreover have "\<forall>z. z \<notin> set (addrs T) \<longrightarrow> set_color h a COLOR_BLACK z = h z"
    by (simp add: T setter_other)
  ultimately show ?thesis
    using run ih by (intro exI[of _ "set_color h a COLOR_BLACK"] exI[of _ rt] exI[of _ "paint COLOR_BLACK T"]) simp
qed

lemma plug_not_Leaf: "t \<noteq> Leaf \<Longrightarrow> plug ctx t \<noteq> Leaf"
proof (induction ctx arbitrary: t)
  case (Cons f fs)
  then show ?case by (cases f) auto
qed simp

lemma InsertFixUp_correct:
  assumes "repr_ctx h rt ctx (Some n) par" and "repr h par (Some n) t"
    and "distinct (addrs (plug ctx t))" and "fix_inv ctx t"
  shows "\<exists>h' rt' T'. InsertFixUp h rt n = Some (Inr (h', rt')) \<and> repr h' None rt' T' \<and>
           addrs T' = addrs (plug ctx t) \<and> keys T' = keys (plug ctx t) \<and> invc T' \<and> invh T' \<and>
           rootcol T' = COLOR_BLACK \<and> (\<forall>z. z \<notin> set (addrs (plug ctx t)) \<longrightarrow> h' z = h z)"
  using assms
proof (induction "length ctx" arbitrary: h rt ctx n par t rule: less_induct)
  case less
  note rc = less.prems(1) and rt = less.prems(2) and d = less.prems(3) and inv = less.prems(4)
  from rt obtain ta cn kn tb where t: "t = Node ta n cn kn tb"
    by (cases t) auto
  from inv have ict: "invc t" and iht: "invh t" and ihc: "invh_ctx ctx (bheight t)"
    and icc: "invc_ctx ctx COLOR_BLACK" and rb: "ctx_root_black ctx" and red: "rootcol t = COLOR_RED"
    unfolding fix_inv_def by blast+
  have whole: "repr h None rt (plug ctx t)"
    using rc rt by (auto simp: repr_plug)
  have ne: "plug ctx t \<noteq> Leaf"
    by (rule plug_not_Leaf) (simp add: t)
  have ih: "invh (plug ctx t)"
    using iht ihc by (simp add: invh_plug)
  show ?case
  proof (cases ctx)
    case Nil
    have c: "InsertFixUp_cond h rt n = Inr False"
      using rc Nil by (simp add: InsertFixUp_cond_def)
    have "invc (plug ctx t)" using ict Nil by simp
    from InsertFixUp_exit[OF c whole d ne this ih] show ?thesis .
  next
    case (Cons f fs)
    have par: "par = Some (faddr f)" "color (h (faddr f)) = fcolor f"
      using repr_ctx_parent[OF rc[unfolded Cons]] by simp_all
    have "rt = Some (faddr (last ctx))"
      using rc Cons by (intro repr_ctx_root[OF rc]) simp
    moreover have "faddr (last ctx) \<in> set (ctx_addrs ctx)"
      using Cons by (intro faddr_in_ctx) simp
    moreover have "n \<notin> set (ctx_addrs ctx)"
      using d by (auto simp: distinct_plug t)
    ultimately have nrt: "Some n \<noteq> rt" by auto
    have pn: "parent (h n) = Some (faddr f)"
      using rt par by (simp add: t)
    show ?thesis
    proof (cases "fcolor f = COLOR_RED")
      case False
      then have fb: "fcolor f = COLOR_BLACK"
        using color_cases[of "fcolor f"] by simp
      have c: "InsertFixUp_cond h rt n = Inr False"
        using nrt pn par fb by (simp add: InsertFixUp_cond_def)
      have "invc_ctx ctx (rootcol t)"
        using icc fb unfolding Cons by simp
      then have "invc (plug ctx t)" using ict by (simp add: invc_plug)
      from InsertFixUp_exit[OF c whole d ne this ih] show ?thesis .
    next
      case True
      have c: "InsertFixUp_cond h rt n = Inr True"
        using nrt pn par True by (simp add: InsertFixUp_cond_def)
      from rb True obtain g gs where fs: "fs = g # gs"
        unfolding Cons by (cases fs) (simp_all add: ctx_root_black_def)
      obtain ctx' t' where st: "fix_step (f # g # gs) (Node ta n cn kn tb) = (ctx', t')"
        by (cases "fix_step (f # g # gs) (Node ta n cn kn tb)")
      from body_refines[OF rc[unfolded Cons fs] rt[unfolded t] d[unfolded Cons fs t] st]
      obtain h1 rt1 n1 par1 where
        b: "InsertFixUp_body h rt n = Inr (h1, rt1, n1)"
        and rc1: "repr_ctx h1 rt1 ctx' (Some n1) par1" and rt1: "repr h1 par1 (Some n1) t'"
        and fr1: "\<forall>z. z \<notin> set (addrs (plug (f # g # gs) (Node ta n cn kn tb))) \<longrightarrow> h1 z = h z"
        by blast
      have inv1: "fix_inv ctx' t'"
        using fix_step_inv[OF inv[unfolded Cons fs t] True st] .
      have len: "length ctx' < length ctx"
        using fix_step_length[OF st] unfolding Cons fs .
      have a1: "addrs (plug ctx' t') = addrs (plug ctx t)"
        using fix_step_addrs[OF st] unfolding Cons fs t .
      have k1: "keys (plug ctx' t') = keys (plug ctx t)"
        using fix_step_keys[OF st] unfolding Cons fs t .
      have d1: "distinct (addrs (plug ctx' t'))"
        using d a1 by simp
      from less.hyps[OF len rc1 rt1 d1 inv1] obtain h' rt' T' where
        run: "InsertFixUp h1 rt1 n1 = Some (Inr (h', rt'))" and res: "repr h' None rt' T'"
        "addrs T' = addrs (plug ctx' t')" "keys T' = keys (plug ctx' t')" "invc T'" "invh T'"
        "rootcol T' = COLOR_BLACK" and fr2: "\<forall>z. z \<notin> set (addrs (plug ctx' t')) \<longrightarrow> h' z = h1 z"
        by blast
      have run0: "InsertFixUp h rt n = Some (Inr (h', rt'))"
        by (subst InsertFixUp.simps) (simp add: c b run)
      have fr: "\<forall>z. z \<notin> set (addrs (plug ctx t)) \<longrightarrow> h' z = h z"
        using fr1 fr2 a1 unfolding Cons fs t by simp
      show ?thesis
        using run0 res fr a1 k1 by (intro exI[of _ h'] exI[of _ rt'] exI[of _ T']) simp
    qed
  qed
qed

subsection \<open>Placement and lookup\<close>

lemma path_to_plug: "plug (path_to k s ctx) Leaf = plug ctx s"
  by (induction s arbitrary: ctx) simp_all

lemma path_to_ins: "plug (path_to k s ctx) (Node Leaf n COLOR_RED k Leaf) = plug ctx (ins k n s)"
  by (induction s arbitrary: ctx) simp_all

lemma path_to_top: "s \<noteq> Leaf \<Longrightarrow> \<exists>f fs. path_to k s ctx = f # fs \<and> dir_ok k f"
proof (induction s arbitrary: ctx)
  case Leaf
  then show ?case by simp
next
  case (Node l a c x r)
  show ?case
  proof (cases "k < x")
    case True
    show ?thesis
    proof (cases "l = Leaf")
      case True
      with \<open>k < x\<close> show ?thesis by simp
    next
      case False
      from Node.IH(1)[OF False, of "LeftOf a c x r # ctx"] \<open>k < x\<close> show ?thesis by simp
    qed
  next
    case False
    show ?thesis
    proof (cases "r = Leaf")
      case True
      with \<open>\<not> k < x\<close> show ?thesis by simp
    next
      case rl: False
      from Node.IH(2)[OF rl, of "RightOf a c x l # ctx"] False show ?thesis by simp
    qed
  qed
qed

lemma set_keys_ins: "set (keys (ins k n s)) = insert k (set (keys s))"
  by (induction s) auto

lemma sorted_keys_ins:
  "sorted_wrt (<) (keys s) \<Longrightarrow> k \<notin> set (keys s) \<Longrightarrow> sorted_wrt (<) (keys (ins k n s))"
proof (induction s)
  case Leaf
  then show ?case by simp
next
  case (Node l a c x r)
  then show ?case
    by (auto simp: sorted_wrt_append set_keys_ins)
qed

lemma set_addrs_ins: "set (addrs (ins k n s)) = insert n (set (addrs s))"
  by (induction s) auto

lemma distinct_addrs_ins:
  "distinct (addrs s) \<Longrightarrow> n \<notin> set (addrs s) \<Longrightarrow> distinct (addrs (ins k n s))"
  by (induction s) (auto simp: set_addrs_ins)

lemma size_ins: "length (keys (ins k n s)) = Suc (length (keys s))"
  by (induction s) auto

lemma BasicInsert_loop_correct:
  assumes "repr_ctx h rt ctx cur prev" and "repr h prev cur s"
  shows "\<exists>prev'. BasicInsert_loop h node cur prev = Some prev' \<and>
           repr_ctx h rt (path_to (data (h node)) s ctx) None prev'"
  using assms
proof (induction s arbitrary: ctx cur prev)
  case Leaf
  then show ?case
    by (subst BasicInsert_loop.simps) simp
next
  case (Node l a c x r)
  from Node.prems(2) have cur: "cur = Some a" and a: "parent (h a) = prev" "color (h a) = c"
    "data (h a) = x" and rl: "repr h (Some a) (left (h a)) l" and rr: "repr h (Some a) (right (h a)) r"
    by simp_all
  show ?case
  proof (cases "data (h node) < x")
    case True
    have "repr_ctx h rt (LeftOf a c x r # ctx) (left (h a)) (Some a)"
      using Node.prems(1) a rr cur by simp
    from Node.IH(1)[OF this rl] obtain prev' where
      "BasicInsert_loop h node (left (h a)) (Some a) = Some prev'"
      "repr_ctx h rt (path_to (data (h node)) l (LeftOf a c x r # ctx)) None prev'"
      by blast
    then show ?thesis
      using True a cur by (subst BasicInsert_loop.simps) simp
  next
    case False
    have "repr_ctx h rt (RightOf a c x l # ctx) (right (h a)) (Some a)"
      using Node.prems(1) a rl cur by simp
    from Node.IH(2)[OF this rr] obtain prev' where
      "BasicInsert_loop h node (right (h a)) (Some a) = Some prev'"
      "repr_ctx h rt (path_to (data (h node)) r (RightOf a c x l # ctx)) None prev'"
      by blast
    then show ?thesis
      using False a cur by (subst BasicInsert_loop.simps) simp
  qed
qed

lemma BasicInsert_correct:
  assumes r: "repr h None rt T" and ne: "T \<noteq> Leaf" and d: "distinct (addrs T)"
    and fresh: "node \<notin> set (addrs T)"
    and nd: "data (h node) = k" "color (h node) = COLOR_RED" "left (h node) = None"
      "right (h node) = None"
  shows "\<exists>h' par. BasicInsert h rt node = Some (Inr h') \<and>
           repr_ctx h' rt (path_to k T []) (Some node) par \<and>
           repr h' par (Some node) (Node Leaf node COLOR_RED k Leaf) \<and>
           (\<forall>z. z \<notin> set (addrs T) \<and> z \<noteq> node \<longrightarrow> h' z = h z)"
proof -
  have "repr_ctx h rt [] rt None" by simp
  from BasicInsert_loop_correct[OF this r, of node] nd(1) obtain prev where
    loop: "BasicInsert_loop h node rt None = Some prev"
    and rc: "repr_ctx h rt (path_to k T []) None prev"
    by auto
  from path_to_top[OF ne, of k "[]"] obtain f fs where p: "path_to k T [] = f # fs" and ok: "dir_ok k f"
    by blast
  have T: "plug (path_to k T []) Leaf = T"
    by (simp add: path_to_plug)
  have "distinct (ctx_addrs (path_to k T []))" and "set (ctx_addrs (path_to k T [])) = set (addrs T)"
    using d distinct_plug[of "path_to k T []" Leaf] addrs_plug[of "path_to k T []" Leaf]
    unfolding T by simp_all
  then have dc: "distinct (ctx_addrs (f # fs))" and sub: "set (ctx_addrs (f # fs)) \<subseteq> set (addrs T)"
    unfolding p by simp_all
  have fc: "node \<notin> set (ctx_addrs (f # fs))"
    using sub fresh by blast
  show ?thesis
  proof (cases f)
    case (LeftOf a c x s)
    let ?h = "set_left (set_parent h node (Some a)) a (Some node)"
    from ok LeftOf have kx: "k < x" by simp
    from rc p LeftOf have prev: "prev = Some a" and da: "data (h a) = x" by simp_all
    have na: "node \<noteq> a" using fc LeftOf by auto
    have run: "BasicInsert h rt node = Some (Inr ?h)"
      using loop prev nd da kx na by (simp add: BasicInsert_def Let_def)
    have "repr_ctx ?h rt (f # fs) (Some node) (Some a)"
      using rc dc fc na unfolding p LeftOf by simp
    moreover have "repr ?h (Some a) (Some node) (Node Leaf node COLOR_RED k Leaf)"
      using nd na by simp
    moreover have "\<forall>z. z \<notin> set (addrs T) \<and> z \<noteq> node \<longrightarrow> ?h z = h z"
    proof (intro allI impI)
      fix z
      assume z: "z \<notin> set (addrs T) \<and> z \<noteq> node"
      have "a \<in> set (addrs T)" using sub LeftOf by simp
      with z have "z \<noteq> a" "z \<noteq> node" by auto
      then show "?h z = h z" by (simp add: setter_other)
    qed
    ultimately show ?thesis using run p by auto
  next
    case (RightOf a c x s)
    let ?h = "set_right (set_parent h node (Some a)) a (Some node)"
    from ok RightOf have kx: "\<not> k < x" by simp
    from rc p RightOf have prev: "prev = Some a" and da: "data (h a) = x" by simp_all
    have na: "node \<noteq> a" using fc RightOf by auto
    have run: "BasicInsert h rt node = Some (Inr ?h)"
      using loop prev nd da kx na by (simp add: BasicInsert_def Let_def)
    have "repr_ctx ?h rt (f # fs) (Some node) (Some a)"
      using rc dc fc na unfolding p RightOf by simp
    moreover have "repr ?h (Some a) (Some node) (Node Leaf node COLOR_RED k Leaf)"
      using nd na by simp
    moreover have "\<forall>z. z \<notin> set (addrs T) \<and> z \<noteq> node \<longrightarrow> ?h z = h z"
    proof (intro allI impI)
      fix z
      assume z: "z \<notin> set (addrs T) \<and> z \<noteq> node"
      have "a \<in> set (addrs T)" using sub RightOf by simp
      with z have "z \<noteq> a" "z \<noteq> node" by auto
      then show "?h z = h z" by (simp add: setter_other)
    qed
    ultimately show ?thesis using run p by auto
  qed
qed

lemma Get_loop_correct:
  assumes "repr h par p t" and "sorted_wrt (<) (keys t)"
  shows "\<exists>r. Get_loop h k p = Some r \<and> (r \<noteq> None \<longleftrightarrow> k \<in> set (keys t))"
  using assms
proof (induction t arbitrary: par p)
  case Leaf
  then show ?case by (subst Get_loop.simps) simp
next
  case (Node l a c x r)
  from Node.prems(1) have p: "p = Some a" and a: "data (h a) = x"
    and rl: "repr h (Some a) (left (h a)) l" and rr: "repr h (Some a) (right (h a)) r"
    by simp_all
  from Node.prems(2) have sl: "sorted_wrt (<) (keys l)" and sr: "sorted_wrt (<) (keys r)"
    and lt: "\<forall>y \<in> set (keys l). y < x" and gt: "\<forall>y \<in> set (keys r). x < y"
    by (auto simp: sorted_wrt_append)
  consider "k = x" | "k < x" | "x < k" by linarith
  then show ?case
  proof cases
    case 1
    then show ?thesis using p a by (subst Get_loop.simps) simp
  next
    case 2
    from Node.IH(1)[OF rl sl] obtain r' where
      "Get_loop h k (left (h a)) = Some r'" "r' \<noteq> None \<longleftrightarrow> k \<in> set (keys l)" by blast
    moreover have "k \<in> set (keys (Node l a c x r)) \<longleftrightarrow> k \<in> set (keys l)"
      using 2 gt by auto
    ultimately show ?thesis using p a 2 by (subst Get_loop.simps) simp
  next
    case 3
    from Node.IH(2)[OF rr sr] obtain r' where
      "Get_loop h k (right (h a)) = Some r'" "r' \<noteq> None \<longleftrightarrow> k \<in> set (keys r)" by blast
    moreover have "k \<in> set (keys (Node l a c x r)) \<longleftrightarrow> k \<in> set (keys r)"
      using 3 lt by auto
    ultimately show ?thesis using p a 3 by (subst Get_loop.simps) simp
  qed
qed

subsection \<open>Insert on one tree\<close>

lemma paint_black_id: "rootcol T = COLOR_BLACK \<Longrightarrow> paint COLOR_BLACK T = T"
  by (cases T) simp_all

lemma length_addrs_keys: "length (addrs T) = length (keys T)"
  by (induction T) simp_all

lemma Insert_empty:
  assumes "root t = None"
  shows "Insert m t k =
     Some (Inr (),
           \<lparr>cells = set_color (set_data ((cells m)(next_free m := RBTNode_init)) (next_free m) k)
                      (next_free m) COLOR_BLACK,
            next_free = Suc (next_free m)\<rparr>,
           \<lparr>root = Some (next_free m), numItems = numItems t + 1\<rparr>)"
  using assms by (simp add: Insert_def new_RBTNode_def upd_def Let_def)

lemma Insert_duplicate:
  assumes ok: "tree_ok (cells m) t T" and k: "k \<in> set (keys T)"
  shows "Insert m t k = Some (Inl Duplicate_value, m, t)"
proof -
  from ok have r: "repr (cells m) None (root t) T" and s: "sorted_wrt (<) (keys T)"
    by (simp_all add: tree_ok_def rbt_def)
  from k have "T \<noteq> Leaf" by auto
  with r obtain a where rt: "root t = Some a" by (cases T) auto
  from Get_loop_correct[OF r s, of k] k have "Contains (cells m) t k = Some True"
    by (auto simp: Contains_def Get_def)
  with rt show ?thesis by (simp add: Insert_def)
qed

lemma Insert_new:
  assumes ok: "tree_ok (cells m) t T" and below: "set (addrs T) \<subseteq> {..<next_free m}"
    and k: "k \<notin> set (keys T)"
  shows "\<exists>m' t' T'. Insert m t k = Some (Inr (), m', t') \<and> tree_ok (cells m') t' T' \<and>
           next_free m' = Suc (next_free m) \<and>
           set (addrs T') = insert (next_free m) (set (addrs T)) \<and>
           set (keys T') = insert k (set (keys T)) \<and>
           numItems t' = numItems t + 1 \<and>
           (\<forall>z. z \<notin> set (addrs T) \<and> z \<noteq> next_free m \<longrightarrow> cells m' z = cells m z)"
proof -
  let ?n = "next_free m"
  from ok have r: "repr (cells m) None (root t) T" and s: "sorted_wrt (<) (keys T)"
    and d: "distinct (addrs T)" and ic: "invc T" and ih: "invh T" and rb: "rootcol T = COLOR_BLACK"
    and cnt: "numItems t = length (keys T)"
    by (simp_all add: tree_ok_def rbt_def)
  from below have fresh: "?n \<notin> set (addrs T)" by auto
  show ?thesis
  proof (cases T)
    case Leaf
    with r have rt: "root t = None" by simp
    let ?h = "set_color (set_data ((cells m)(?n := RBTNode_init)) ?n k) ?n COLOR_BLACK"
    let ?T = "Node Leaf ?n COLOR_BLACK k Leaf"
    have "tree_ok ?h \<lparr>root = Some ?n, numItems = numItems t + 1\<rparr> ?T"
      using cnt Leaf by (simp add: tree_ok_def rbt_def RBTNode_init_def)
    moreover have "\<forall>z. z \<notin> set (addrs T) \<and> z \<noteq> ?n \<longrightarrow> ?h z = cells m z"
      by (simp add: setter_other)
    ultimately show ?thesis
      unfolding Insert_empty[OF rt] using Leaf
      by (intro exI[of _ "\<lparr>cells = ?h, next_free = Suc ?n\<rparr>"]
          exI[of _ "\<lparr>root = Some ?n, numItems = numItems t + 1\<rparr>"] exI[of _ ?T]) simp
  next
    case (Node l a c x rr)
    then have ne: "T \<noteq> Leaf" by simp
    from r have rt: "root t = Some a" unfolding Node by simp
    from Get_loop_correct[OF r s, of k] k have con: "Contains (cells m) t k = Some False"
      by (auto simp: Contains_def Get_def)
    let ?h2 = "set_color (set_data ((cells m)(?n := RBTNode_init)) ?n k) ?n COLOR_RED"
    let ?N = "Node Leaf ?n COLOR_RED k Leaf"
    let ?ctx = "path_to k T []"
    have same2: "\<And>z. z \<noteq> ?n \<Longrightarrow> ?h2 z = cells m z"
      by (simp add: setter_other)
    have "\<And>z. z \<in> set (addrs T) \<Longrightarrow> ?h2 z = cells m z"
    proof -
      fix z assume "z \<in> set (addrs T)"
      with fresh have "z \<noteq> ?n" by auto
      then show "?h2 z = cells m z" by (rule same2)
    qed
    then have "repr ?h2 None (root t) T = repr (cells m) None (root t) T"
      by (rule repr_cong)
    with r have r2: "repr ?h2 None (root t) T" by simp
    have nd: "data (?h2 ?n) = k" "color (?h2 ?n) = COLOR_RED" "left (?h2 ?n) = None"
      "right (?h2 ?n) = None"
      by (simp_all add: RBTNode_init_def)
    from BasicInsert_correct[OF r2 ne d fresh nd] obtain h3 par where
      bi: "BasicInsert ?h2 (root t) ?n = Some (Inr h3)"
      and rc3: "repr_ctx h3 (root t) ?ctx (Some ?n) par"
      and rn3: "repr h3 par (Some ?n) ?N"
      and fr3: "\<forall>z. z \<notin> set (addrs T) \<and> z \<noteq> ?n \<longrightarrow> h3 z = ?h2 z"
      by blast
    have pl: "plug ?ctx ?N = ins k ?n T" by (simp add: path_to_ins)
    have pT: "plug ?ctx Leaf = T" by (simp add: path_to_plug)
    have d3: "distinct (addrs (plug ?ctx ?N))"
      unfolding pl using d fresh by (rule distinct_addrs_ins)
    have "invh_ctx ?ctx 0" using ih invh_plug[of ?ctx Leaf] unfolding pT by simp
    moreover have "invc_ctx ?ctx COLOR_BLACK" using ic invc_plug[of ?ctx Leaf] unfolding pT by simp
    moreover have "ctx_root_black ?ctx"
      using rb rootcol_plug[of ?ctx Leaf] unfolding pT by (simp add: ctx_root_black_def split: if_splits)
    ultimately have inv: "fix_inv ?ctx ?N"
      by (simp add: fix_inv_def)
    from InsertFixUp_correct[OF rc3 rn3 d3 inv] obtain h4 rt4 T' where
      fx: "InsertFixUp h3 (root t) ?n = Some (Inr (h4, rt4))"
      and r4: "repr h4 None rt4 T'" and a4: "addrs T' = addrs (ins k ?n T)"
      and k4: "keys T' = keys (ins k ?n T)" and ic4: "invc T'" and ih4: "invh T'"
      and rb4: "rootcol T' = COLOR_BLACK"
      and fr4: "\<forall>z. z \<notin> set (addrs (ins k ?n T)) \<longrightarrow> h4 z = h3 z"
      unfolding pl by blast
    have "set (addrs T') \<noteq> {}" unfolding a4 by (simp add: set_addrs_ins)
    then have "T' \<noteq> Leaf" by auto
    with r4 obtain rl ra rk rrr where T': "T' = Node rl ra COLOR_BLACK rk rrr" and rt4: "rt4 = Some ra"
      using rb4 by (cases T') auto
    let ?h5 = "set_color h4 ra COLOR_BLACK"
    let ?m' = "\<lparr>cells = ?h5, next_free = Suc ?n\<rparr>"
    let ?t' = "\<lparr>root = rt4, numItems = numItems t + 1\<rparr>"
    have run: "Insert m t k = Some (Inr (), ?m', ?t')"
      using rt con bi fx rt4 by (simp add: Insert_def new_RBTNode_def upd_def Let_def)
    have d4: "distinct (addrs T')"
      unfolding a4 using d fresh by (rule distinct_addrs_ins)
    have r5: "repr ?h5 None rt4 T'"
      using repr_paint_root[OF r4[unfolded rt4] d4, of COLOR_BLACK] paint_black_id[OF rb4]
      unfolding rt4 by simp
    have s4: "sorted_wrt (<) (keys T')"
      unfolding k4 using s k by (rule sorted_keys_ins)
    have "tree_ok ?h5 ?t' T'"
      using r5 s4 d4 ic4 ih4 rb4 cnt by (simp add: tree_ok_def rbt_def k4 size_ins)
    moreover have "set (addrs T') = insert ?n (set (addrs T))"
      unfolding a4 by (rule set_addrs_ins)
    moreover have "set (keys T') = insert k (set (keys T))"
      unfolding k4 by (rule set_keys_ins)
    moreover have "\<forall>z. z \<notin> set (addrs T) \<and> z \<noteq> ?n \<longrightarrow> ?h5 z = cells m z"
    proof (intro allI impI)
      fix z
      assume z: "z \<notin> set (addrs T) \<and> z \<noteq> ?n"
      then have zi: "z \<notin> set (addrs (ins k ?n T))" by (simp add: set_addrs_ins)
      have "ra \<in> set (addrs T')" by (simp add: T')
      then have "z \<noteq> ra" using zi a4 by auto
      then have "?h5 z = h4 z" by (simp add: setter_other)
      also have "\<dots> = h3 z" using fr4 zi by simp
      also have "\<dots> = ?h2 z" using fr3 z by simp
      also have "\<dots> = cells m z" using z by (simp add: same2)
      finally show "?h5 z = cells m z" .
    qed
    ultimately show ?thesis
      using run by (intro exI[of _ ?m'] exI[of _ ?t'] exI[of _ T']) simp
  qed
qed

subsection \<open>Nodes, paths, renderings and extremes read from the heap\<close>

lemma nodes_sub: "b \<in> nodes h q \<Longrightarrow> q = left (h a) \<or> q = right (h a) \<Longrightarrow> b \<in> nodes h (Some a)"
proof (induction rule: nodes.induct)
  case (root b)
  then show ?case by (auto intro: nodes.left nodes.right nodes.root)
next
  case (left b c)
  then show ?case by (auto intro: nodes.left)
next
  case (right b c)
  then show ?case by (auto intro: nodes.right)
qed

lemma addrs_in_nodes: "repr h par p T \<Longrightarrow> a \<in> set (addrs T) \<Longrightarrow> a \<in> nodes h p"
proof (induction T arbitrary: par p)
  case Leaf
  then show ?case by simp
next
  case (Node l b c k r)
  from Node.prems(1) have p: "p = Some b" and rl: "repr h (Some b) (left (h b)) l"
    and rr: "repr h (Some b) (right (h b)) r" by simp_all
  from Node.prems(2) consider "a = b" | "a \<in> set (addrs l)" | "a \<in> set (addrs r)" by auto
  then show ?case
  proof cases
    case 1
    then show ?thesis unfolding p by (simp add: nodes.root)
  next
    case 2
    from Node.IH(1)[OF rl 2] show ?thesis unfolding p by (rule nodes_sub) simp
  next
    case 3
    from Node.IH(2)[OF rr 3] show ?thesis unfolding p by (rule nodes_sub) simp
  qed
qed

lemma repr_children_in:
  "repr h par p T \<Longrightarrow> a \<in> set (addrs T) \<Longrightarrow> left (h a) = Some b \<or> right (h a) = Some b \<Longrightarrow>
   b \<in> set (addrs T)"
proof (induction T arbitrary: par p)
  case Leaf
  then show ?case by simp
next
  case (Node l x c k r)
  from Node.prems(1) have rl: "repr h (Some x) (left (h x)) l"
    and rr: "repr h (Some x) (right (h x)) r" by simp_all
  from Node.prems(2) consider "a = x" | "a \<in> set (addrs l)" | "a \<in> set (addrs r)" by auto
  then show ?case
  proof cases
    case 1
    with Node.prems(3) repr_ptr[OF rl] repr_ptr[OF rr] show ?thesis by auto
  next
    case 2
    from Node.IH(1)[OF rl 2 Node.prems(3)] show ?thesis by simp
  next
    case 3
    from Node.IH(2)[OF rr 3 Node.prems(3)] show ?thesis by simp
  qed
qed

lemma nodes_in_addrs: "a \<in> nodes h p \<Longrightarrow> repr h par p T \<Longrightarrow> a \<in> set (addrs T)"
proof (induction rule: nodes.induct)
  case (root a)
  then show ?case by (cases T) auto
next
  case (left a b)
  then show ?case using repr_children_in by blast
next
  case (right a b)
  then show ?case using repr_children_in by blast
qed

lemma nodes_repr: "repr h par p T \<Longrightarrow> nodes h p = set (addrs T)"
  using addrs_in_nodes nodes_in_addrs by blast

lemma repr_subtree:
  "repr h par p T \<Longrightarrow> a \<in> set (addrs T) \<Longrightarrow>
   \<exists>par' l c k r. repr h par' (Some a) (Node l a c k r) \<and> Node l a c k r \<in> subtrees T"
proof (induction T arbitrary: par p)
  case Leaf
  then show ?case by simp
next
  case (Node l x c k r)
  from Node.prems(1) have rl: "repr h (Some x) (left (h x)) l"
    and rr: "repr h (Some x) (right (h x)) r" by simp_all
  from Node.prems(2) consider "a = x" | "a \<in> set (addrs l)" | "a \<in> set (addrs r)" by auto
  then show ?case
  proof cases
    case 1
    with Node.prems(1) show ?thesis by auto
  next
    case 2
    from Node.IH(1)[OF rl 2] show ?thesis by auto
  next
    case 3
    from Node.IH(2)[OF rr 3] show ?thesis by auto
  qed
qed

lemma subtrees_invc: "S \<in> subtrees T \<Longrightarrow> invc T \<Longrightarrow> invc S"
  by (induction T) auto

lemma subtrees_invh: "S \<in> subtrees T \<Longrightarrow> invh T \<Longrightarrow> invh S"
  by (induction T) auto

lemma black_path_bheight: "repr h par p T \<Longrightarrow> invh T \<Longrightarrow> black_path h p (bheight T)"
proof (induction T arbitrary: par p)
  case Leaf
  then show ?case by (simp add: black_path.slot)
next
  case (Node l a c k r)
  from Node.prems have p: "p = Some a" and c: "color (h a) = c"
    and rl: "repr h (Some a) (left (h a)) l" and il: "invh l" by simp_all
  from black_path.left[OF Node.IH(1)[OF rl il]] show ?case
    unfolding p by (simp add: c)
qed

lemma black_path_unique: "black_path h p n \<Longrightarrow> repr h par p T \<Longrightarrow> invh T \<Longrightarrow> n = bheight T"
proof (induction arbitrary: par T rule: black_path.induct)
  case slot
  then show ?case by (cases T) auto
next
  case (left a n)
  from left.prems(1) obtain l c k r where T: "T = Node l a c k r" by (cases T) auto
  from left.prems have "repr h (Some a) (left (h a)) l" "invh l" "color (h a) = c"
    unfolding T by simp_all
  with left.IH[of "Some a" l] show ?case unfolding T by simp
next
  case (right a n)
  from right.prems(1) obtain l c k r where T: "T = Node l a c k r" by (cases T) auto
  from right.prems have "repr h (Some a) (right (h a)) r" "invh r" "color (h a) = c"
    "bheight l = bheight r"
    unfolding T by simp_all
  with right.IH[of "Some a" r] show ?case unfolding T by simp
qed

lemma keys_addrs: "repr h par p T \<Longrightarrow> map (\<lambda>a. data (h a)) (addrs T) = keys T"
  by (induction T arbitrary: par p) auto

lemma keys_preorder: "set (preorder T) = set (addrs T)" 
  by (induction T) auto

lemma infix_repr:
  "repr h par p T \<Longrightarrow>
   ToInfixString h p = Some (concat (map (\<lambda>a. GetNodeString h (Some a)) (addrs T)))"
proof (induction T arbitrary: par p)
  case Leaf
  then show ?case by (subst ToInfixString.simps) simp
next
  case (Node l a c k r)
  from Node.prems have p: "p = Some a" and rl: "repr h (Some a) (left (h a)) l"
    and rr: "repr h (Some a) (right (h a)) r" by simp_all
  show ?case
    unfolding p by (subst ToInfixString.simps) (simp add: Node.IH(1)[OF rl] Node.IH(2)[OF rr])
qed

lemma prefix_repr:
  "repr h par p T \<Longrightarrow>
   ToPrefixString h p = Some (concat (map (\<lambda>a. GetNodeString h (Some a)) (preorder T)))"
proof (induction T arbitrary: par p)
  case Leaf
  then show ?case by (subst ToPrefixString.simps) simp
next
  case (Node l a c k r)
  from Node.prems have p: "p = Some a" and rl: "repr h (Some a) (left (h a)) l"
    and rr: "repr h (Some a) (right (h a)) r" by simp_all
  show ?case
    unfolding p by (subst ToPrefixString.simps) (simp add: Node.IH(1)[OF rl] Node.IH(2)[OF rr])
qed

lemma postfix_repr:
  "repr h par p T \<Longrightarrow>
   ToPostfixString h p = Some (concat (map (\<lambda>a. GetNodeString h (Some a)) (postorder T)))"
proof (induction T arbitrary: par p)
  case Leaf
  then show ?case by (subst ToPostfixString.simps) simp
next
  case (Node l a c k r)
  from Node.prems have p: "p = Some a" and rl: "repr h (Some a) (left (h a)) l"
    and rr: "repr h (Some a) (right (h a)) r" by simp_all
  show ?case
    unfolding p by (subst ToPostfixString.simps) (simp add: Node.IH(1)[OF rl] Node.IH(2)[OF rr])
qed

lemma keys_nonempty: "T \<noteq> Leaf \<Longrightarrow> keys T \<noteq> []"
  by (cases T) auto

lemma GetMin_loop_correct:
  "repr h par (Some a) T \<Longrightarrow> \<exists>b. GetMin_loop h a = Some b \<and> data (h b) = hd (keys T)"
proof (induction T arbitrary: par a)
  case Leaf
  then show ?case by simp
next
  case (Node l x c k r)
  from Node.prems have a: "a = x" and k: "data (h a) = k"
    and rl: "repr h (Some a) (left (h a)) l" by simp_all
  show ?case
  proof (cases l)
    case Leaf
    with rl have "left (h a) = None" by simp
    then show ?thesis using Leaf k by (subst GetMin_loop.simps) simp
  next
    case (Node ll la lc lk lr)
    with rl have la: "left (h a) = Some la" by simp
    from Node.IH(1)[OF rl[unfolded la]] obtain b where
      "GetMin_loop h la = Some b" "data (h b) = hd (keys l)" by blast
    moreover have "keys l \<noteq> []" using Node by simp
    then have "hd (keys l @ k # keys r) = hd (keys l)"
      by (rule hd_append2)
    ultimately show ?thesis using la by (subst GetMin_loop.simps) simp
  qed
qed

lemma GetMax_loop_correct:
  "repr h par (Some a) T \<Longrightarrow> \<exists>b. GetMax_loop h a = Some b \<and> data (h b) = last (keys T)"
proof (induction T arbitrary: par a)
  case Leaf
  then show ?case by simp
next
  case (Node l x c k r)
  from Node.prems have a: "a = x" and k: "data (h a) = k"
    and rr: "repr h (Some a) (right (h a)) r" by simp_all
  show ?case
  proof (cases r)
    case Leaf
    with rr have "right (h a) = None" by simp
    then show ?thesis using Leaf k by (subst GetMax_loop.simps) simp
  next
    case (Node rl ra rc rk rrr)
    with rr have ra: "right (h a) = Some ra" by simp
    from Node.IH(2)[OF rr[unfolded ra]] obtain b where
      "GetMax_loop h ra = Some b" "data (h b) = last (keys r)" by blast
    moreover have "keys r \<noteq> []" using Node by simp
    then have "last (keys l @ k # keys r) = last (keys r)"
      by simp
    ultimately show ?thesis using ra by (subst GetMax_loop.simps) simp
  qed
qed

lemma sorted_hd_Min: "sorted_wrt (<) xs \<Longrightarrow> xs \<noteq> [] \<Longrightarrow> Min (set xs) = hd (xs :: int list)"
proof (cases xs)
  case Nil
  assume "xs \<noteq> []" with Nil show ?thesis by simp
next
  case (Cons x ys)
  assume "sorted_wrt (<) xs"
  with Cons have "\<forall>y \<in> set ys. x < y" by simp
  then have "Min (set (x # ys)) = x"
    by (intro Min_eqI) auto
  then show ?thesis using Cons by simp
qed

lemma sorted_last_Max: "sorted_wrt (<) xs \<Longrightarrow> xs \<noteq> [] \<Longrightarrow> Max (set xs) = last (xs :: int list)"
proof (induction xs rule: rev_induct)
  case Nil
  then show ?case by simp
next
  case (snoc x ys)
  then have "\<forall>y \<in> set ys. y < x" by (simp add: sorted_wrt_append)
  then have "Max (set (ys @ [x])) = x"
    by (intro Max_eqI) auto
  then show ?case by simp
qed

subsection \<open>Copying\<close>

lemma upd_sel [simp]:
  "cells (upd m f) = f (cells m)"
  "next_free (upd m f) = next_free m"
  by (simp_all add: upd_def)

lemma repr_reparent:
  assumes r: "repr h par0 q T" and d: "distinct (addrs T)"
    and same: "\<And>z. z \<in> set (addrs T) \<Longrightarrow> Some z \<noteq> q \<Longrightarrow> H z = h z"
    and top: "\<And>z. q = Some z \<Longrightarrow> H z = (h z)\<lparr>parent := par1\<rparr>"
  shows "repr H par1 q T"
proof (cases T)
  case Leaf
  with r show ?thesis by simp
next
  case (Node l a c k rr)
  from r have q: "q = Some a" and f: "color (h a) = c" "data (h a) = k"
    and rl: "repr h (Some a) (left (h a)) l" and rr: "repr h (Some a) (right (h a)) rr"
    unfolding Node by simp_all
  have Ha: "H a = (h a)\<lparr>parent := par1\<rparr>" using top q by simp
  have "\<And>z. z \<in> set (addrs l) \<Longrightarrow> H z = h z"
    using same d unfolding Node q by auto
  then have "repr H (Some a) (left (h a)) l = repr h (Some a) (left (h a)) l"
    by (rule repr_cong)
  moreover have "\<And>z. z \<in> set (addrs rr) \<Longrightarrow> H z = h z"
    using same d unfolding Node q by auto
  then have "repr H (Some a) (right (h a)) rr = repr h (Some a) (right (h a)) rr"
    by (rule repr_cong)
  ultimately show ?thesis
    unfolding Node using q f rl rr Ha by simp
qed

lemma CopyOf_correct:
  assumes "repr (cells m) par p T" and "set (addrs T) \<subseteq> {..<next_free m}"
  shows "\<exists>m' q T'. CopyOf m p = Some (m', q) \<and> repr (cells m') None q T' \<and> same_shape T T' \<and>
           distinct (addrs T') \<and> set (addrs T') = {next_free m..<next_free m'} \<and>
           next_free m \<le> next_free m' \<and> (\<forall>z<next_free m. cells m' z = cells m z)"
  using assms
proof (induction T arbitrary: m par p)
  case Leaf
  then have "p = None" by simp
  then have "CopyOf m p = Some (m, None)" by (subst CopyOf.simps) simp
  then show ?case
    by (intro exI[of _ m] exI[of _ None] exI[of _ Leaf]) simp
next
  case (Node l a c k r)
  let ?n = "next_free m"
  from Node.prems(1) have p: "p = Some a" and fa: "color (cells m a) = c" "data (cells m a) = k"
    and rl: "repr (cells m) (Some a) (left (cells m a)) l"
    and rr: "repr (cells m) (Some a) (right (cells m a)) r"
    by simp_all
  from Node.prems(2) have an: "a < ?n" and ln: "set (addrs l) \<subseteq> {..<?n}"
    and rn: "set (addrs r) \<subseteq> {..<?n}"
    by auto
  define m0 where "m0 = \<lparr>cells = (cells m)(?n := RBTNode_init), next_free = Suc ?n\<rparr>"
  define m1 where "m1 = upd m0 (\<lambda>h. set_data h ?n (data (h a)))"
  define m2 where "m2 = upd m1 (\<lambda>h. set_color h ?n (color (h a)))"
  define m3 where "m3 = upd m2 (\<lambda>h. set_IsNullNode h ?n (IsNullNode (h a)))"
  have nf3: "next_free m3 = Suc ?n"
    by (simp add: m3_def m2_def m1_def m0_def)
  have same3: "\<And>z. z \<noteq> ?n \<Longrightarrow> cells m3 z = cells m z"
    by (simp add: m3_def m2_def m1_def m0_def setter_other)
  have new3: "data (cells m3 ?n) = k" "color (cells m3 ?n) = c" "left (cells m3 ?n) = None"
    "right (cells m3 ?n) = None" "parent (cells m3 ?n) = None"
    using an fa by (simp_all add: m3_def m2_def m1_def m0_def RBTNode_init_def)
  have a3: "cells m3 a = cells m a" using an by (simp add: same3)
  have "\<And>z. z \<in> set (addrs l) \<Longrightarrow> cells m3 z = cells m z"
    using ln by (intro same3) auto
  then have "repr (cells m3) (Some a) (left (cells m a)) l = repr (cells m) (Some a) (left (cells m a)) l"
    by (rule repr_cong)
  with rl have rl3: "repr (cells m3) (Some a) (left (cells m3 a)) l" by (simp add: a3)
  have ln3: "set (addrs l) \<subseteq> {..<next_free m3}" using ln nf3 by auto
  from Node.IH(1)[OF rl3 ln3] obtain m4 ql l' where
    c4: "CopyOf m3 (left (cells m3 a)) = Some (m4, ql)" and r4: "repr (cells m4) None ql l'"
    and s4: "same_shape l l'" and d4: "distinct (addrs l')"
    and a4: "set (addrs l') = {Suc ?n..<next_free m4}" and le4: "Suc ?n \<le> next_free m4"
    and f4: "\<forall>z<Suc ?n. cells m4 z = cells m3 z"
    unfolding nf3 by blast
  define m5 where "m5 = upd m4 (\<lambda>h. set_left h ?n ql)"
  have nf5: "next_free m5 = next_free m4" by (simp add: m5_def)
  have same5: "\<And>z. z < ?n \<Longrightarrow> cells m5 z = cells m z"
    using f4 by (simp add: m5_def setter_other same3)
  have a5: "cells m5 a = cells m a" using an by (rule same5)
  have "\<And>z. z \<in> set (addrs r) \<Longrightarrow> cells m5 z = cells m z"
    using rn by (intro same5) auto
  then have "repr (cells m5) (Some a) (right (cells m a)) r = repr (cells m) (Some a) (right (cells m a)) r"
    by (rule repr_cong)
  with rr have rr5: "repr (cells m5) (Some a) (right (cells m5 a)) r" by (simp add: a5)
  have rn5: "set (addrs r) \<subseteq> {..<next_free m5}" using rn le4 nf5 by auto
  from Node.IH(2)[OF rr5 rn5] obtain m6 qr r' where
    c6: "CopyOf m5 (right (cells m5 a)) = Some (m6, qr)" and r6: "repr (cells m6) None qr r'"
    and s6: "same_shape r r'" and d6: "distinct (addrs r')"
    and a6: "set (addrs r') = {next_free m4..<next_free m6}" and le6: "next_free m4 \<le> next_free m6"
    and f6: "\<forall>z<next_free m4. cells m6 z = cells m5 z"
    unfolding nf5 by blast
  define m7 where "m7 = upd m6 (\<lambda>h. set_right h ?n qr)"
  define m8 where "m8 = (case left (cells m7 ?n) of None \<Rightarrow> m7
                         | Some cl \<Rightarrow> upd m7 (\<lambda>h. set_parent h cl (Some ?n)))"
  define m9 where "m9 = (case right (cells m8 ?n) of None \<Rightarrow> m8
                         | Some cr \<Rightarrow> upd m8 (\<lambda>h. set_parent h cr (Some ?n)))"
  have run: "CopyOf m p = Some (m9, Some ?n)"
    unfolding p
    apply (subst CopyOf.simps)
    apply (simp only: option.case new_RBTNode_def prod.case Let_def)
    apply (fold m0_def)
    apply (fold m1_def)
    apply (fold m2_def)
    apply (fold m3_def)
    apply (simp only: c4 Option.bind.simps prod.case)
    apply (fold m5_def)
    apply (simp only: c6 Option.bind.simps prod.case)
    apply (fold m7_def)
    apply (fold m8_def)
    apply (fold m9_def)
    apply (rule refl)
    done
  have ql_in: "\<And>z. ql = Some z \<Longrightarrow> Suc ?n \<le> z \<and> z < next_free m4"
    using repr_ptr[OF r4] a4 by auto
  have qr_in: "\<And>z. qr = Some z \<Longrightarrow> next_free m4 \<le> z \<and> z < next_free m6"
    using repr_ptr[OF r6] a6 by auto
  have n6: "cells m6 ?n = (cells m3 ?n)\<lparr>left := ql\<rparr>"
  proof -
    have "cells m6 ?n = cells m5 ?n" using f6 le4 by simp
    also have "\<dots> = (cells m4 ?n)\<lparr>left := ql\<rparr>" by (simp add: m5_def set_left_def)
    also have "cells m4 ?n = cells m3 ?n" using f4 by simp
    finally show ?thesis .
  qed
  have c7: "\<And>z. cells m7 z = (if z = ?n then (cells m6 ?n)\<lparr>right := qr\<rparr> else cells m6 z)"
    by (simp add: m7_def set_right_def)
  have l7: "left (cells m7 ?n) = ql" by (simp add: c7 n6)
  have m8: "m8 = (case ql of None \<Rightarrow> m7 | Some cl \<Rightarrow> upd m7 (\<lambda>h. set_parent h cl (Some ?n)))"
    unfolding m8_def l7 ..
  have r8: "right (cells m8 ?n) = qr"
    unfolding m8 by (cases ql) (simp_all add: c7)
  have m9: "m9 = (case qr of None \<Rightarrow> m8 | Some cr \<Rightarrow> upd m8 (\<lambda>h. set_parent h cr (Some ?n)))"
    unfolding m9_def r8 ..
  have nf9: "next_free m9 = next_free m6"
    unfolding m9 m8 by (cases ql; cases qr) (simp_all add: m7_def)
  have H: "\<And>z. cells m9 z =
      (if Some z = ql \<or> Some z = qr then (cells m7 z)\<lparr>parent := Some ?n\<rparr> else cells m7 z)"
    unfolding m9 m8 by (cases ql; cases qr) (auto simp: set_parent_def)
  have Hn: "cells m9 ?n = (cells m3 ?n)\<lparr>left := ql, right := qr\<rparr>"
  proof -
    have "Some ?n \<noteq> ql" "Some ?n \<noteq> qr" using ql_in qr_in le4 by fastforce+
    then show ?thesis by (simp add: H c7 n6)
  qed
  have Hl: "repr (cells m9) (Some ?n) ql l'"
  proof (rule repr_reparent[OF r4 d4])
    fix z assume z: "z \<in> set (addrs l')" and nq: "Some z \<noteq> ql"
    from z a4 have zr: "Suc ?n \<le> z" "z < next_free m4" by auto
    then have "Some z \<noteq> qr" using qr_in by fastforce
    with nq have "cells m9 z = cells m7 z" by (simp add: H)
    also have "\<dots> = cells m6 z" using zr by (simp add: c7)
    also have "\<dots> = cells m5 z" using f6 zr by simp
    also have "\<dots> = cells m4 z" using zr by (simp add: m5_def setter_other)
    finally show "cells m9 z = cells m4 z" .
  next
    fix z assume q: "ql = Some z"
    from ql_in[OF q] have zr: "Suc ?n \<le> z" "z < next_free m4" by auto
    have "cells m7 z = cells m6 z" using zr by (simp add: c7)
    also have "\<dots> = cells m5 z" using f6 zr by simp
    also have "\<dots> = cells m4 z" using zr by (simp add: m5_def setter_other)
    finally show "cells m9 z = (cells m4 z)\<lparr>parent := Some ?n\<rparr>" using q by (simp add: H)
  qed
  have Hr: "repr (cells m9) (Some ?n) qr r'"
  proof (rule repr_reparent[OF r6 d6])
    fix z assume z: "z \<in> set (addrs r')" and nq: "Some z \<noteq> qr"
    from z a6 have zr: "next_free m4 \<le> z" "z < next_free m6" by auto
    then have "Some z \<noteq> ql" using ql_in by fastforce
    with nq have "cells m9 z = cells m7 z" by (simp add: H)
    also have "\<dots> = cells m6 z" using zr le4 by (simp add: c7)
    finally show "cells m9 z = cells m6 z" .
  next
    fix z assume q: "qr = Some z"
    from qr_in[OF q] have zr: "next_free m4 \<le> z" "z < next_free m6" by auto
    have "cells m7 z = cells m6 z" using zr le4 by (simp add: c7)
    then show "cells m9 z = (cells m6 z)\<lparr>parent := Some ?n\<rparr>" using q by (simp add: H)
  qed
  let ?T = "Node l' ?n c k r'"
  have "repr (cells m9) None (Some ?n) ?T"
    using Hl Hr new3 by (simp add: Hn)
  moreover have "same_shape (Node l a c k r) ?T" using s4 s6 by simp
  moreover have "distinct (addrs ?T)" using d4 d6 a4 a6 le4 le6 by auto
  moreover have "set (addrs ?T) = {?n..<next_free m9}"
    unfolding nf9 using a4 a6 le4 le6 by auto
  moreover have "?n \<le> next_free m9" unfolding nf9 using le4 le6 by simp
  moreover have "\<forall>z<?n. cells m9 z = cells m z"
  proof (intro allI impI)
    fix z assume z: "z < ?n"
    then have "Some z \<noteq> ql" "Some z \<noteq> qr" using ql_in qr_in le4 by fastforce+
    then have "cells m9 z = cells m7 z" by (simp add: H)
    also have "\<dots> = cells m6 z" using z by (simp add: c7)
    also have "\<dots> = cells m5 z" using f6 z le4 by simp
    also have "\<dots> = cells m z" using z by (rule same5)
    finally show "cells m9 z = cells m z" .
  qed
  ultimately show ?case
    using run by (intro exI[of _ m9] exI[of _ "Some ?n"] exI[of _ ?T]) simp
qed

subsection \<open>Every reachable state is a family of disjoint red-black trees\<close>

lemma tree_ok_cong:
  assumes "\<And>z. z \<in> set (addrs T) \<Longrightarrow> h' z = h z"
  shows "tree_ok h' t T = tree_ok h t T"
  unfolding tree_ok_def using repr_cong[of T h' h None "root t", OF assms] by simp

lemma same_shape_keys: "same_shape T T' \<Longrightarrow> keys T' = keys T"
  by (induction T T' rule: same_shape.induct) simp_all

lemma same_shape_rootcol: "same_shape T T' \<Longrightarrow> rootcol T' = rootcol T"
  by (induction T T' rule: same_shape.induct) simp_all

lemma same_shape_invc: "same_shape T T' \<Longrightarrow> invc T' = invc T"
  by (induction T T' rule: same_shape.induct) (auto simp: same_shape_rootcol)

lemma same_shape_bheight: "same_shape T T' \<Longrightarrow> bheight T' = bheight T"
  by (induction T T' rule: same_shape.induct) simp_all

lemma same_shape_invh: "same_shape T T' \<Longrightarrow> invh T' = invh T"
  by (induction T T' rule: same_shape.induct) (auto simp: same_shape_bheight)

lemma same_shape_rbt: "same_shape T T' \<Longrightarrow> distinct (addrs T') \<Longrightarrow> rbt T \<Longrightarrow> rbt T'"
  by (simp add: rbt_def same_shape_keys same_shape_rootcol same_shape_invc same_shape_invh)

lemma world_inv_append:
  assumes w: "world_inv m ts Ts"
    and same: "\<forall>z<next_free m. cells m' z = cells m z" and le: "next_free m \<le> next_free m'"
    and ok: "tree_ok (cells m') t T" and new: "set (addrs T) \<subseteq> {next_free m..<next_free m'}"
  shows "world_inv m' (ts @ [t]) (Ts @ [T])"
proof -
  from w have len: "length Ts = length ts"
    and old: "\<And>i. i < length ts \<Longrightarrow> tree_ok (cells m) (ts ! i) (Ts ! i)"
    and below: "\<And>i. i < length ts \<Longrightarrow> set (addrs (Ts ! i)) \<subseteq> {..<next_free m}"
    and disj: "\<And>i j. i < length ts \<Longrightarrow> j < length ts \<Longrightarrow> i \<noteq> j \<Longrightarrow>
                 set (addrs (Ts ! i)) \<inter> set (addrs (Ts ! j)) = {}"
    unfolding world_inv_def by auto
  have old': "tree_ok (cells m') (ts ! i) (Ts ! i)" if "i < length ts" for i
  proof -
    have "\<And>z. z \<in> set (addrs (Ts ! i)) \<Longrightarrow> cells m' z = cells m z"
      using below[OF that] same by auto
    then have "tree_ok (cells m') (ts ! i) (Ts ! i) = tree_ok (cells m) (ts ! i) (Ts ! i)"
      by (rule tree_ok_cong)
    with old[OF that] show ?thesis by simp
  qed
  have fresh: "set (addrs (Ts ! i)) \<inter> set (addrs T) = {}" if "i < length ts" for i
  proof -
    have "\<And>x. x \<in> set (addrs (Ts ! i)) \<Longrightarrow> x < next_free m"
      using below[OF that] by auto
    moreover have "\<And>x. x \<in> set (addrs T) \<Longrightarrow> next_free m \<le> x"
      using new by auto
    ultimately show ?thesis by fastforce
  qed
  show ?thesis
    unfolding world_inv_def
  proof (intro conjI allI impI)
    show "length (Ts @ [T]) = length (ts @ [t])" using len by simp
  next
    fix i assume "i < length (ts @ [t])"
    then consider "i < length ts" | "i = length ts" by fastforce
    then show "tree_ok (cells m') ((ts @ [t]) ! i) ((Ts @ [T]) ! i)"
      using old' ok len by cases (simp_all add: nth_append)
  next
    fix i assume "i < length (ts @ [t])"
    then consider "i < length ts" | "i = length ts" by fastforce
    then show "set (addrs ((Ts @ [T]) ! i)) \<subseteq> {..<next_free m'}"
    proof cases
      case 1
      with below[OF 1] le len show ?thesis by (auto simp: nth_append)
    next
      case 2
      with new len show ?thesis by (auto simp: nth_append)
    qed
  next
    fix i j assume "i < length (ts @ [t])" "j < length (ts @ [t])" "i \<noteq> j"
    then consider "i < length ts" "j < length ts" | "i < length ts" "j = length ts"
      | "i = length ts" "j < length ts" by fastforce
    then show "set (addrs ((Ts @ [T]) ! i)) \<inter> set (addrs ((Ts @ [T]) ! j)) = {}"
    proof cases
      case 1
      with disj[OF 1 \<open>i \<noteq> j\<close>] len show ?thesis by (simp add: nth_append)
    next
      case 2
      with fresh[OF 2(1)] len show ?thesis by (simp add: nth_append)
    next
      case 3
      with fresh[OF 3(2)] len show ?thesis by (simp add: nth_append Int_commute)
    qed
  qed
qed

lemma world_inv_update:
  assumes w: "world_inv m ts Ts" and i: "i < length ts"
    and ok: "tree_ok (cells m') t' T'"
    and sub: "set (addrs T') \<subseteq> insert (next_free m) (set (addrs (Ts ! i)))"
    and le: "next_free m < next_free m'"
    and same: "\<forall>z. z \<notin> set (addrs (Ts ! i)) \<and> z \<noteq> next_free m \<longrightarrow> cells m' z = cells m z"
  shows "world_inv m' (ts[i := t']) (Ts[i := T'])"
proof -
  from w have len: "length Ts = length ts"
    and old: "\<And>j. j < length ts \<Longrightarrow> tree_ok (cells m) (ts ! j) (Ts ! j)"
    and below: "\<And>j. j < length ts \<Longrightarrow> set (addrs (Ts ! j)) \<subseteq> {..<next_free m}"
    and disj: "\<And>i j. i < length ts \<Longrightarrow> j < length ts \<Longrightarrow> i \<noteq> j \<Longrightarrow>
                 set (addrs (Ts ! i)) \<inter> set (addrs (Ts ! j)) = {}"
    unfolding world_inv_def by auto
  have old': "tree_ok (cells m') (ts ! j) (Ts ! j)" if "j < length ts" "j \<noteq> i" for j
  proof -
    have "\<And>z. z \<in> set (addrs (Ts ! j)) \<Longrightarrow> cells m' z = cells m z"
      using below[OF that(1)] disj[OF that(1) i that(2)] same by fastforce
    then have "tree_ok (cells m') (ts ! j) (Ts ! j) = tree_ok (cells m) (ts ! j) (Ts ! j)"
      by (rule tree_ok_cong)
    with old[OF that(1)] show ?thesis by simp
  qed
  have fresh: "set (addrs (Ts ! j)) \<inter> set (addrs T') = {}" if "j < length ts" "j \<noteq> i" for j
    using below[OF that(1)] disj[OF that(1) i that(2)] sub by fastforce
  show ?thesis
    unfolding world_inv_def
  proof (intro conjI allI impI)
    show "length (Ts[i := T']) = length (ts[i := t'])" using len by simp
  next
    fix j assume "j < length (ts[i := t'])"
    then have j: "j < length ts" by simp
    show "tree_ok (cells m') (ts[i := t'] ! j) (Ts[i := T'] ! j)"
      using old'[OF j] ok len i j by (cases "j = i") simp_all
  next
    fix j assume "j < length (ts[i := t'])"
    then have j: "j < length ts" by simp
    show "set (addrs (Ts[i := T'] ! j)) \<subseteq> {..<next_free m'}"
    proof (cases "j = i")
      case True
      with sub below[OF i] le len i show ?thesis by fastforce
    next
      case False
      with below[OF j] le len show ?thesis by fastforce
    qed
  next
    fix j k assume "j < length (ts[i := t'])" "k < length (ts[i := t'])" and ne: "j \<noteq> k"
    then have j: "j < length ts" and k: "k < length ts" by simp_all
    consider "j = i" "k \<noteq> i" | "j \<noteq> i" "k = i" | "j \<noteq> i" "k \<noteq> i" using ne by blast
    then show "set (addrs (Ts[i := T'] ! j)) \<inter> set (addrs (Ts[i := T'] ! k)) = {}"
    proof cases
      case 1
      with fresh[OF k 1(2)] len i show ?thesis by (simp add: Int_commute)
    next
      case 2
      with fresh[OF j 2(1)] len i show ?thesis by simp
    next
      case 3
      with disj[OF j k ne] show ?thesis by simp
    qed
  qed
qed

lemma RedBlackTree_int_ok:
  assumes "RedBlackTree_int m k = (m', t)"
  shows "tree_ok (cells m') t (Node Leaf (next_free m) COLOR_BLACK k Leaf) \<and>
         next_free m' = Suc (next_free m) \<and> (\<forall>z<next_free m. cells m' z = cells m z)"
  using assms
  by (auto simp: RedBlackTree_int_def new_RBTNode_def Let_def tree_ok_def rbt_def RBTNode_init_def
      setter_other)

lemma reachable_inv: "reachable m ts \<Longrightarrow> \<exists>Ts. world_inv m ts Ts"
proof (induction rule: reachable.induct)
  case (start m)
  have "world_inv m [] []" by (simp add: world_inv_def)
  then show ?case ..
next
  case (default_ctor m ts)
  then obtain Ts where w: "world_inv m ts Ts" by blast
  have "tree_ok (cells m) RedBlackTree_default Leaf"
    by (simp add: tree_ok_def rbt_def RedBlackTree_default_def)
  from world_inv_append[OF w _ _ this] show ?case by auto
next
  case (value_ctor m ts k m' t)
  then obtain Ts where w: "world_inv m ts Ts" by blast
  from RedBlackTree_int_ok[OF value_ctor.hyps(2)]
  have ok: "tree_ok (cells m') t (Node Leaf (next_free m) COLOR_BLACK k Leaf)"
    and nf: "next_free m' = Suc (next_free m)" and same: "\<forall>z<next_free m. cells m' z = cells m z"
    by simp_all
  from world_inv_append[OF w same _ ok] nf show ?case by auto
next
  case (copy_ctor m ts i m' t)
  then obtain Ts where w: "world_inv m ts Ts" by blast
  from w copy_ctor.hyps(2) have ok: "tree_ok (cells m) (ts ! i) (Ts ! i)"
    and below: "set (addrs (Ts ! i)) \<subseteq> {..<next_free m}"
    unfolding world_inv_def by auto
  from ok have r: "repr (cells m) None (root (ts ! i)) (Ts ! i)" and rb: "rbt (Ts ! i)"
    and cnt: "numItems (ts ! i) = length (keys (Ts ! i))"
    by (simp_all add: tree_ok_def)
  from CopyOf_correct[OF r below] obtain m1 q T' where
    c: "CopyOf m (root (ts ! i)) = Some (m1, q)" and r': "repr (cells m1) None q T'"
    and sh: "same_shape (Ts ! i) T'" and d: "distinct (addrs T')"
    and a: "set (addrs T') = {next_free m..<next_free m1}" and le: "next_free m \<le> next_free m1"
    and same: "\<forall>z<next_free m. cells m1 z = cells m z"
    by blast
  from copy_ctor.hyps(3) c have m': "m' = m1" and t: "t = \<lparr>root = q, numItems = numItems (ts ! i)\<rparr>"
    by (simp_all add: RedBlackTree_copy_def)
  have "tree_ok (cells m') t T'"
    using r' same_shape_rbt[OF sh d rb] cnt same_shape_keys[OF sh]
    by (simp add: tree_ok_def m' t)
  from world_inv_append[OF w same[folded m'] le[folded m'] this] a show ?case
    unfolding m' by auto
next
  case (insert m ts i k res m' t)
  then obtain Ts where w: "world_inv m ts Ts" by blast
  from w insert.hyps(2) have ok: "tree_ok (cells m) (ts ! i) (Ts ! i)"
    and below: "set (addrs (Ts ! i)) \<subseteq> {..<next_free m}"
    unfolding world_inv_def by auto
  show ?case
  proof (cases "k \<in> set (keys (Ts ! i))")
    case True
    from Insert_duplicate[OF ok True] insert.hyps(3) have "m' = m" "t = ts ! i" by simp_all
    with w show ?thesis by (auto simp: list_update_id)
  next
    case False
    from Insert_new[OF ok below False] insert.hyps(3) obtain T' where
      ok': "tree_ok (cells m') t T'" and nf: "next_free m' = Suc (next_free m)"
      and a: "set (addrs T') = insert (next_free m) (set (addrs (Ts ! i)))"
      and same: "\<forall>z. z \<notin> set (addrs (Ts ! i)) \<and> z \<noteq> next_free m \<longrightarrow> cells m' z = cells m z"
      by auto
    from world_inv_update[OF w insert.hyps(2) ok' _ _ same] a nf show ?thesis by auto
  qed
qed

subsection \<open>Facts about reachable trees\<close>

lemma reachable_tree:
  assumes "reachable m ts" and "t \<in> set ts"
  shows "\<exists>T. tree_ok (cells m) t T \<and> set (addrs T) \<subseteq> {..<next_free m}"
proof -
  from reachable_inv[OF assms(1)] obtain Ts where w: "world_inv m ts Ts" ..
  from assms(2) obtain i where "i < length ts" "ts ! i = t" by (auto simp: in_set_conv_nth)
  with w show ?thesis unfolding world_inv_def by auto
qed

lemma stored_keys_repr: "repr h None (root t) T \<Longrightarrow> stored_keys h t = set (keys T)"
  using nodes_repr[of h None "root t" T] keys_addrs[of h None "root t" T]
  by (simp add: stored_keys_def flip: set_map)

text \<open>The equations that run the operations on a concrete memory.\<close>

lemmas run_simps =
  Insert_def new_RBTNode_def upd_def Let_def Contains_def Get_def Get_loop.simps
  BasicInsert_def BasicInsert_loop.simps InsertFixUp.simps InsertFixUp_cond_def
  InsertFixUp_body_def IsLeftChild_def IsRightChild_def GetUncle_def recolor_up_def
  recolor_rotate_def LeftRotate_def RightRotate_def RBTNode_init_def empty_memory_def
  RedBlackTree_default_def RedBlackTree_int_def RedBlackTree_copy_def CopyOf.simps
  rendering_def query_def node_view_def top_view_def
  ToInfixString.simps ToPrefixString.simps ToPostfixString.simps
  GetNodeString_def GetColorString_def to_string_def
  GetMin_def GetMin_loop.simps GetMax_def GetMax_loop.simps

lemma reachable_Insert_all:
  "reachable m [t] \<Longrightarrow> Insert_all m t ks = Some (m', t') \<Longrightarrow> reachable m' [t']"
proof (induction ks arbitrary: m t)
  case Nil
  then show ?case by simp
next
  case (Cons k ks)
  from Cons.prems(2) obtain res m1 t1 where i: "Insert m t k = Some (res, m1, t1)"
    by (cases "Insert m t k") auto
  with Cons.prems(2) have rest: "Insert_all m1 t1 ks = Some (m', t')"
    by (cases res) simp_all
  from reachable.insert[OF Cons.prems(1), of 0 k res m1 t1] i have "reachable m1 [t1]" by simp
  from Cons.IH[OF this rest] show ?case .
qed

lemma reachable_state_after:
  assumes "Insert_all empty_memory RedBlackTree_default ks \<noteq> None"
  shows "reachable (fst (state_after ks)) [snd (state_after ks)]"
proof -
  from assms obtain m' t' where s: "Insert_all empty_memory RedBlackTree_default ks = Some (m', t')"
    by auto
  have "reachable empty_memory [RedBlackTree_default]"
    using reachable.default_ctor[OF reachable.start, of empty_memory] by simp
  from reachable_Insert_all[OF this s] show ?thesis by (simp add: state_after_def s)
qed

text \<open>The states the witnesses are taken at.\<close>

lemma state_10_20_30:
  "Insert_all empty_memory RedBlackTree_default [10, 20, 30] \<noteq> None"
  "repr (cells (fst (state_after [10, 20, 30]))) None (root (snd (state_after [10, 20, 30])))
     (Node (Node Leaf 0 COLOR_RED 10 Leaf) 1 COLOR_BLACK 20 (Node Leaf 2 COLOR_RED 30 Leaf))"
  "numItems (snd (state_after [10, 20, 30])) = 3"
  "next_free (fst (state_after [10, 20, 30])) = 3"
  by (simp_all add: state_after_def run_simps)

lemma state_10_to_60:
  "Insert_all empty_memory RedBlackTree_default [10, 20, 30, 40, 50, 60] \<noteq> None"
  "repr (cells (fst (state_after [10, 20, 30, 40, 50, 60]))) None
     (root (snd (state_after [10, 20, 30, 40, 50, 60])))
     (Node (Node Leaf 0 COLOR_BLACK 10 Leaf) 1 COLOR_BLACK 20
        (Node (Node Leaf 2 COLOR_BLACK 30 Leaf) 3 COLOR_RED 40
           (Node Leaf 4 COLOR_BLACK 50 (Node Leaf 5 COLOR_RED 60 Leaf))))"
  by (simp_all add: state_after_def run_simps)

text \<open>Rotations at any node of a tree.\<close>

lemma plug_append: "plug (xs @ ys) t = plug ys (plug xs t)"
  by (induction xs arbitrary: t) simp_all

lemma split_at:
  "n \<in> set (addrs T) \<Longrightarrow> \<exists>ctx l c k r. T = plug ctx (Node l n c k r)"
proof (induction T)
  case Leaf
  then show ?case by simp
next
  case (Node l a c k r)
  from Node.prems consider "n = a" | "n \<in> set (addrs l)" | "n \<in> set (addrs r)" by auto
  then show ?case
  proof cases
    case 1
    have "Node l a c k r = plug [] (Node l n c k r)" using 1 by simp
    then show ?thesis by blast
  next
    case 2
    from Node.IH(1)[OF 2] obtain ctx l' c' k' r' where "l = plug ctx (Node l' n c' k' r')" by blast
    then have "Node l a c k r = plug (ctx @ [LeftOf a c k r]) (Node l' n c' k' r')"
      by (simp add: plug_append)
    then show ?thesis by blast
  next
    case 3
    from Node.IH(2)[OF 3] obtain ctx l' c' k' r' where "r = plug ctx (Node l' n c' k' r')" by blast
    then have "Node l a c k r = plug (ctx @ [RightOf a c k l]) (Node l' n c' k' r')"
      by (simp add: plug_append)
    then show ?thesis by blast
  qed
qed

lemma GetNodeString_cong:
  "color (h' a) = color (h a) \<Longrightarrow> data (h' a) = data (h a) \<Longrightarrow>
   GetNodeString h' (Some a) = GetNodeString h (Some a)"
  by (simp add: GetNodeString_def GetColorString_def)

lemma LeftRotate_tree:
  assumes r: "repr h None rt T" and d: "distinct (addrs T)" and n: "n \<in> set (addrs T)"
    and c: "right (h n) = Some y"
  shows "\<exists>h' rt' T'. LeftRotate h rt n = Inr (h', rt') \<and>
           (\<forall>a. color (h' a) = color (h a) \<and> data (h' a) = data (h a) \<and>
                IsNullNode (h' a) = IsNullNode (h a)) \<and>
           repr h' None rt' T' \<and> addrs T' = addrs T \<and> keys T' = keys T \<and>
           ToInfixString h' rt' = ToInfixString h rt \<and>
           parent (h' y) = parent (h n) \<and> left (h' y) = Some n \<and> parent (h' n) = Some y \<and>
           right (h' n) = left (h y) \<and>
           (\<forall>b. left (h y) = Some b \<longrightarrow> parent (h' b) = Some n) \<and>
           (\<forall>a. a \<noteq> n \<and> a \<noteq> y \<and> Some a \<noteq> left (h y) \<and> Some a \<noteq> parent (h n) \<longrightarrow> h' a = h a) \<and>
           rt' = (if parent (h n) = None then Some y else rt)"
proof -
  from split_at[OF n] obtain ctx ta cn kn S where T: "T = plug ctx (Node ta n cn kn S)" by blast
  from r obtain p par where rc: "repr_ctx h rt ctx p par" and rn0: "repr h par p (Node ta n cn kn S)"
    unfolding T repr_plug by blast
  from rn0 have p: "p = Some n" by simp
  from rn0 c have "repr h (Some n) (Some y) S" by simp
  then obtain b cy ky cc where S: "S = Node b y cy ky cc" by (cases S) auto
  note rn = rn0[unfolded p S] and rc' = rc[unfolded p]
  from rn have pn: "parent (h n) = par" and lb: "repr h (Some y) (left (h y)) b" by simp_all
  from LeftRotate_zipper[OF rc' rn d[unfolded T S]] obtain h' rt' where
    run: "LeftRotate h rt n = Inr (h', rt')" and rc2: "repr_ctx h' rt' ctx (Some y) par"
    and rn2: "repr h' par (Some y) (Node (Node ta n cn kn b) y cy ky cc)"
    and same: "\<forall>z. color (h' z) = color (h z) \<and> data (h' z) = data (h z) \<and>
                 IsNullNode (h' z) = IsNullNode (h z)"
    and fr: "\<forall>z. z \<noteq> n \<and> z \<noteq> y \<and> Some z \<noteq> left (h y) \<and> Some z \<noteq> par \<longrightarrow> h' z = h z"
    and rtq: "rt' = (if par = None then Some y else rt)"
    by blast
  let ?T' = "plug ctx (Node (Node ta n cn kn b) y cy ky cc)"
  have r': "repr h' None rt' ?T'" using rc2 rn2 unfolding repr_plug by blast
  have a': "addrs ?T' = addrs T" unfolding T S by (rule addrs_plug_cong) simp
  have k': "keys ?T' = keys T" unfolding T S by (rule keys_plug_cong) simp
  have meq: "map (\<lambda>a. GetNodeString h' (Some a)) (addrs T) = map (\<lambda>a. GetNodeString h (Some a)) (addrs T)"
    using same by (intro map_cong refl GetNodeString_cong) simp_all
  have "ToInfixString h' rt' = Some (concat (map (\<lambda>a. GetNodeString h' (Some a)) (addrs T)))"
    using infix_repr[OF r'] unfolding a' .
  also have "\<dots> = Some (concat (map (\<lambda>a. GetNodeString h (Some a)) (addrs T)))"
    unfolding meq ..
  also have "\<dots> = ToInfixString h rt"
    using infix_repr[OF r] by (rule sym)
  finally have inf: "ToInfixString h' rt' = ToInfixString h rt" .
  from rn2 have lb': "repr h' (Some n) (right (h' n)) b" by simp
  have rl: "right (h' n) = left (h y)"
    using repr_root_addr[OF lb'] repr_root_addr[OF lb] by simp
  have pb: "\<forall>b0. left (h y) = Some b0 \<longrightarrow> parent (h' b0) = Some n"
  proof (intro allI impI)
    fix b0 assume "left (h y) = Some b0"
    with lb' rl have "repr h' (Some n) (Some b0) b" by simp
    then show "parent (h' b0) = Some n" by (cases b) auto
  qed
  from rn2 have ptr: "parent (h' y) = par" "left (h' y) = Some n" "parent (h' n) = Some y"
    by simp_all
  show ?thesis
    using run same r' a' k' inf ptr rl pb fr rtq unfolding pn
    by (intro exI[of _ h'] exI[of _ rt'] exI[of _ ?T']) simp
qed

lemma RightRotate_tree:
  assumes r: "repr h None rt T" and d: "distinct (addrs T)" and n: "n \<in> set (addrs T)"
    and c: "left (h n) = Some y"
  shows "\<exists>h' rt' T'. RightRotate h rt n = Inr (h', rt') \<and>
           (\<forall>a. color (h' a) = color (h a) \<and> data (h' a) = data (h a) \<and>
                IsNullNode (h' a) = IsNullNode (h a)) \<and>
           repr h' None rt' T' \<and> addrs T' = addrs T \<and> keys T' = keys T \<and>
           ToInfixString h' rt' = ToInfixString h rt \<and>
           parent (h' y) = parent (h n) \<and> right (h' y) = Some n \<and> parent (h' n) = Some y \<and>
           left (h' n) = right (h y) \<and>
           (\<forall>b. right (h y) = Some b \<longrightarrow> parent (h' b) = Some n) \<and>
           (\<forall>a. a \<noteq> n \<and> a \<noteq> y \<and> Some a \<noteq> right (h y) \<and> Some a \<noteq> parent (h n) \<longrightarrow> h' a = h a) \<and>
           rt' = (if parent (h n) = None then Some y else rt)"
proof -
  from split_at[OF n] obtain ctx S cn kn tb where T: "T = plug ctx (Node S n cn kn tb)" by blast
  from r obtain p par where rc: "repr_ctx h rt ctx p par" and rn0: "repr h par p (Node S n cn kn tb)"
    unfolding T repr_plug by blast
  from rn0 have p: "p = Some n" by simp
  from rn0 c have "repr h (Some n) (Some y) S" by simp
  then obtain aa cy ky b where S: "S = Node aa y cy ky b" by (cases S) auto
  note rn = rn0[unfolded p S] and rc' = rc[unfolded p]
  from rn have pn: "parent (h n) = par" and lb: "repr h (Some y) (right (h y)) b" by simp_all
  from RightRotate_zipper[OF rc' rn d[unfolded T S]] obtain h' rt' where
    run: "RightRotate h rt n = Inr (h', rt')" and rc2: "repr_ctx h' rt' ctx (Some y) par"
    and rn2: "repr h' par (Some y) (Node aa y cy ky (Node b n cn kn tb))"
    and same: "\<forall>z. color (h' z) = color (h z) \<and> data (h' z) = data (h z) \<and>
                 IsNullNode (h' z) = IsNullNode (h z)"
    and fr: "\<forall>z. z \<noteq> n \<and> z \<noteq> y \<and> Some z \<noteq> right (h y) \<and> Some z \<noteq> par \<longrightarrow> h' z = h z"
    and rtq: "rt' = (if par = None then Some y else rt)"
    by blast
  let ?T' = "plug ctx (Node aa y cy ky (Node b n cn kn tb))"
  have r': "repr h' None rt' ?T'" using rc2 rn2 unfolding repr_plug by blast
  have a': "addrs ?T' = addrs T" unfolding T S by (rule addrs_plug_cong) simp
  have k': "keys ?T' = keys T" unfolding T S by (rule keys_plug_cong) simp
  have meq: "map (\<lambda>a. GetNodeString h' (Some a)) (addrs T) = map (\<lambda>a. GetNodeString h (Some a)) (addrs T)"
    using same by (intro map_cong refl GetNodeString_cong) simp_all
  have "ToInfixString h' rt' = Some (concat (map (\<lambda>a. GetNodeString h' (Some a)) (addrs T)))"
    using infix_repr[OF r'] unfolding a' .
  also have "\<dots> = Some (concat (map (\<lambda>a. GetNodeString h (Some a)) (addrs T)))"
    unfolding meq ..
  also have "\<dots> = ToInfixString h rt"
    using infix_repr[OF r] by (rule sym)
  finally have inf: "ToInfixString h' rt' = ToInfixString h rt" .
  from rn2 have lb': "repr h' (Some n) (left (h' n)) b" by simp
  have rl: "left (h' n) = right (h y)"
    using repr_root_addr[OF lb'] repr_root_addr[OF lb] by simp
  have pb: "\<forall>b0. right (h y) = Some b0 \<longrightarrow> parent (h' b0) = Some n"
  proof (intro allI impI)
    fix b0 assume "right (h y) = Some b0"
    with lb' rl have "repr h' (Some n) (Some b0) b" by simp
    then show "parent (h' b0) = Some n" by (cases b) auto
  qed
  from rn2 have ptr: "parent (h' y) = par" "right (h' y) = Some n" "parent (h' n) = Some y"
    by simp_all
  show ?thesis
    using run same r' a' k' inf ptr rl pb fr rtq unfolding pn
    by (intro exI[of _ h'] exI[of _ rt'] exI[of _ ?T']) simp
qed

text \<open>Copies and what an insertion leaves alone.\<close>

lemma repr_parent_links: "repr h None rt T \<Longrightarrow> parent_links h rt"
  unfolding parent_links_def
proof (intro conjI allI impI ballI)
  fix r assume "repr h None rt T" "rt = Some r"
  then show "parent (h r) = None" by (cases T) auto
next
  fix a c assume r: "repr h None rt T" and a: "a \<in> nodes h rt"
    and c: "left (h a) = Some c \<or> right (h a) = Some c"
  from a have "a \<in> set (addrs T)" using nodes_repr[OF r] by simp
  from repr_subtree[OF r this] obtain par l ca k rr where
    rs: "repr h par (Some a) (Node l a ca k rr)" by blast
  then have rl: "repr h (Some a) (left (h a)) l" and rr: "repr h (Some a) (right (h a)) rr"
    by simp_all
  from c show "parent (h c) = Some a"
  proof
    assume "left (h a) = Some c"
    with rl show ?thesis by (cases l) auto
  next
    assume "right (h a) = Some c"
    with rr show ?thesis by (cases rr) auto
  qed
qed

lemma same_shape_strings:
  "same_shape T T' \<Longrightarrow> repr h par p T \<Longrightarrow> repr h' par' p' T' \<Longrightarrow>
   map (\<lambda>a. GetNodeString h' (Some a)) (addrs T') = map (\<lambda>a. GetNodeString h (Some a)) (addrs T) \<and>
   map (\<lambda>a. GetNodeString h' (Some a)) (preorder T') = map (\<lambda>a. GetNodeString h (Some a)) (preorder T) \<and>
   map (\<lambda>a. GetNodeString h' (Some a)) (postorder T') = map (\<lambda>a. GetNodeString h (Some a)) (postorder T)"
proof (induction T T' arbitrary: par p par' p' rule: same_shape.induct)
  case 1
  then show ?case by simp
next
  case (2 l a c k r l' a' c' k' r')
  from "2.prems"(1) have sl: "same_shape l l'" and sr: "same_shape r r'" by simp_all
  from "2.prems" have n: "GetNodeString h' (Some a') = GetNodeString h (Some a)"
    by (simp add: GetNodeString_def GetColorString_def)
  from "2.prems"(2) have rl: "repr h (Some a) (left (h a)) l" and rr: "repr h (Some a) (right (h a)) r"
    by simp_all
  from "2.prems"(3) have rl': "repr h' (Some a') (left (h' a')) l'"
    and rr': "repr h' (Some a') (right (h' a')) r'"
    by simp_all
  from "2.IH"(1)[OF sl rl rl'] "2.IH"(2)[OF sr rr rr'] n show ?case by simp
next
  case 3
  then show ?case by simp
next
  case 4
  then show ?case by simp
qed

lemma renderings_cong:
  assumes same: "\<And>a. a \<in> set (addrs T) \<Longrightarrow> h2 a = h a" and r: "repr h None p T"
  shows "repr h2 None p T \<and> ToInfixString h2 p = ToInfixString h p \<and>
         ToPrefixString h2 p = ToPrefixString h p \<and> ToPostfixString h2 p = ToPostfixString h p \<and>
         nodes h2 p = nodes h p"
proof -
  have r2: "repr h2 None p T" using repr_cong[of T h2 h None p] same r by simp
  have g: "\<And>a. a \<in> set (addrs T) \<Longrightarrow> GetNodeString h2 (Some a) = GetNodeString h (Some a)"
    by (simp add: GetNodeString_def GetColorString_def same)
  have i: "map (\<lambda>a. GetNodeString h2 (Some a)) (addrs T) = map (\<lambda>a. GetNodeString h (Some a)) (addrs T)"
    by (rule map_cong[OF refl]) (rule g)
  have pre: "set (preorder T) = set (addrs T)" by (induction T) auto
  have post: "set (postorder T) = set (addrs T)" by (induction T) auto
  have j: "map (\<lambda>a. GetNodeString h2 (Some a)) (preorder T) = map (\<lambda>a. GetNodeString h (Some a)) (preorder T)"
    by (rule map_cong[OF refl]) (rule g, simp add: pre)
  have k: "map (\<lambda>a. GetNodeString h2 (Some a)) (postorder T) = map (\<lambda>a. GetNodeString h (Some a)) (postorder T)"
    by (rule map_cong[OF refl]) (rule g, simp add: post)
  have "ToInfixString h2 p = ToInfixString h p"
    unfolding infix_repr[OF r2] infix_repr[OF r] i ..
  moreover have "ToPrefixString h2 p = ToPrefixString h p"
    unfolding prefix_repr[OF r2] prefix_repr[OF r] j ..
  moreover have "ToPostfixString h2 p = ToPostfixString h p"
    unfolding postfix_repr[OF r2] postfix_repr[OF r] k ..
  moreover have "nodes h2 p = nodes h p"
    unfolding nodes_repr[OF r2] nodes_repr[OF r] ..
  ultimately show ?thesis using r2 by simp
qed

lemma Insert_frame:
  assumes ok: "tree_ok (cells m) t T" and below: "set (addrs T) \<subseteq> {..<next_free m}"
    and run: "Insert m t k = Some (res, m2, t2)"
  shows "\<forall>z. z \<notin> set (addrs T) \<and> z \<noteq> next_free m \<longrightarrow> cells m2 z = cells m z"
proof (cases "k \<in> set (keys T)")
  case True
  from Insert_duplicate[OF ok True] run show ?thesis by simp
next
  case False
  from Insert_new[OF ok below False] run show ?thesis by auto
qed

section \<open>The claims\<close>

text \<open>
  C1: in every reachable state and for every tree and key, \<^verbatim>\<open>Insert(key)\<close> throws the
  duplicate-value error when the key is stored in the tree, and then hands back the memory
  and the tree object exactly as they were; otherwise it returns normally, the count is one
  larger, and the stored keys are the old ones and the new key.
\<close>

theorem C1_Insert_contract:
  assumes "reachable m ts" and "t \<in> set ts"
  shows "(k \<in> stored_keys (cells m) t \<longrightarrow> Insert m t k = Some (Inl Duplicate_value, m, t)) \<and>
         (k \<notin> stored_keys (cells m) t \<longrightarrow>
            (\<exists>m' t'. Insert m t k = Some (Inr (), m', t') \<and> numItems t' = numItems t + 1 \<and>
               stored_keys (cells m') t' = insert k (stored_keys (cells m) t)))"
proof -
  from reachable_tree[OF assms] obtain T where ok: "tree_ok (cells m) t T"
    and below: "set (addrs T) \<subseteq> {..<next_free m}" by blast
  from ok have r: "repr (cells m) None (root t) T" by (simp add: tree_ok_def)
  have sk: "stored_keys (cells m) t = set (keys T)" using r by (rule stored_keys_repr)
  show ?thesis
  proof (intro conjI impI)
    assume "k \<in> stored_keys (cells m) t"
    then show "Insert m t k = Some (Inl Duplicate_value, m, t)"
      unfolding sk by (rule Insert_duplicate[OF ok])
  next
    assume "k \<notin> stored_keys (cells m) t"
    then have "k \<notin> set (keys T)" unfolding sk .
    from Insert_new[OF ok below this] obtain m' t' T' where
      run: "Insert m t k = Some (Inr (), m', t')" and ok': "tree_ok (cells m') t' T'"
      and ks: "set (keys T') = insert k (set (keys T))" and n: "numItems t' = numItems t + 1"
      by blast
    from ok' have "repr (cells m') None (root t') T'" by (simp add: tree_ok_def)
    then have "stored_keys (cells m') t' = set (keys T')" by (rule stored_keys_repr)
    with run n ks sk show "\<exists>m' t'. Insert m t k = Some (Inr (), m', t') \<and>
        numItems t' = numItems t + 1 \<and>
        stored_keys (cells m') t' = insert k (stored_keys (cells m) t)"
      by simp
  qed
qed

text \<open>C1 on the tree that holds the single key 10: inserting 10 again fails and changes
  nothing, inserting 20 succeeds and makes the count 2.\<close>

theorem C1_Insert_contract_witness:
  "reachable (fst (state_after [10])) [snd (state_after [10])] \<and>
   stored_keys (cells (fst (state_after [10]))) (snd (state_after [10])) = {10} \<and>
   Insert (fst (state_after [10])) (snd (state_after [10])) 10
     = Some (Inl Duplicate_value, fst (state_after [10]), snd (state_after [10])) \<and>
   (\<exists>m' t'. Insert (fst (state_after [10])) (snd (state_after [10])) 20 = Some (Inr (), m', t') \<and>
      numItems t' = 2 \<and> stored_keys (cells m') t' = {10, 20})"
proof -
  define m where "m = fst (state_after [10])"
  define t where "t = snd (state_after [10])"
  have "Insert_all empty_memory RedBlackTree_default [10] \<noteq> None"
    by (simp add: run_simps)
  from reachable_state_after[OF this] have r: "reachable m [t]"
    by (simp add: m_def t_def)
  have "repr (cells m) None (root t) (Node Leaf 0 COLOR_BLACK 10 Leaf)"
    by (simp add: m_def t_def state_after_def run_simps)
  from stored_keys_repr[OF this] have sk: "stored_keys (cells m) t = {10}" by simp
  have n: "numItems t = 1" by (simp add: t_def state_after_def run_simps)
  from C1_Insert_contract[OF r, of t 10] sk
  have a: "Insert m t 10 = Some (Inl Duplicate_value, m, t)" by simp
  from C1_Insert_contract[OF r, of t 20] sk obtain m' t' where
    "Insert m t 20 = Some (Inr (), m', t')" "numItems t' = numItems t + 1"
    "stored_keys (cells m') t' = insert 20 (stored_keys (cells m) t)"
    by auto
  with sk n have b: "\<exists>m' t'. Insert m t 20 = Some (Inr (), m', t') \<and> numItems t' = 2 \<and>
            stored_keys (cells m') t' = {10, 20}"
    by (auto simp: insert_commute)
  from r sk a b show ?thesis unfolding m_def t_def by simp
qed

text \<open>
  C8, as the spec states it: inserting 10, 20, 30 in that order into an empty tree gives the
  infix rendering \<^verbatim>\<open>" B10  R20  B30 "\<close>. The code does not produce that string.
\<close>

theorem C8_infix_string_counterexample:
  "rendering ToInfixString (Insert_all empty_memory RedBlackTree_default [10, 20, 30])
     \<noteq> Some '' B10  R20  B30 ''"
  by (simp add: run_simps)

text \<open>
  C8, amended: inserting 10, 20, 30 in that order into an empty tree succeeds and gives a tree
  whose infix rendering is \<^verbatim>\<open>" R10  B20  R30 "\<close>: the root holds 20 and is BLACK, its left
  child holds 10 and its right child holds 30, both RED and both without children;
  \<^verbatim>\<open>GetMin()\<close> is 10 and \<^verbatim>\<open>GetMax()\<close> is 30.
\<close>

theorem C8_insert_10_20_30:
  "rendering ToInfixString (Insert_all empty_memory RedBlackTree_default [10, 20, 30])
     = Some '' R10  B20  R30 '' \<and>
   query top_view (Insert_all empty_memory RedBlackTree_default [10, 20, 30])
     = Some (Some (20, COLOR_BLACK, True, True),
             Some (10, COLOR_RED, False, False),
             Some (30, COLOR_RED, False, False)) \<and>
   query GetMin (Insert_all empty_memory RedBlackTree_default [10, 20, 30]) = Some (Inr 10) \<and>
   query GetMax (Insert_all empty_memory RedBlackTree_default [10, 20, 30]) = Some (Inr 30)"
  by (simp add: run_simps)

text \<open>
  C10: copy-constructing from an empty tree (no root, count 0) gives an empty tree: the copy
  has no root and count 0, no memory is allocated or written, all three renderings of the
  copy are the empty string, and \<^verbatim>\<open>CopyOf\<close> of the null pointer is the null pointer.
\<close>

theorem C10_copy_of_empty:
  assumes "root t = None" and "numItems t = 0"
  shows "RedBlackTree_copy m t = Some (m, \<lparr>root = None, numItems = 0\<rparr>) \<and>
         CopyOf m None = Some (m, None) \<and>
         ToInfixString (cells m) None = Some '''' \<and>
         ToPrefixString (cells m) None = Some '''' \<and>
         ToPostfixString (cells m) None = Some ''''"
  using assms
  by (simp add: RedBlackTree_copy_def CopyOf.simps ToInfixString.simps ToPrefixString.simps
      ToPostfixString.simps)

theorem C10_copy_of_empty_witness:
  "root RedBlackTree_default = None \<and> numItems RedBlackTree_default = 0 \<and>
   RedBlackTree_copy empty_memory RedBlackTree_default
     = Some (empty_memory, \<lparr>root = None, numItems = 0\<rparr>) \<and>
   rendering ToInfixString (RedBlackTree_copy empty_memory RedBlackTree_default) = Some '''' \<and>
   rendering ToPrefixString (RedBlackTree_copy empty_memory RedBlackTree_default) = Some '''' \<and>
   rendering ToPostfixString (RedBlackTree_copy empty_memory RedBlackTree_default) = Some ''''"
proof -
  have h: "root RedBlackTree_default = None" "numItems RedBlackTree_default = 0"
    by (simp_all add: RedBlackTree_default_def)
  from C10_copy_of_empty [OF h, of empty_memory] h show ?thesis
    by (simp add: rendering_def)
qed

text \<open>
  C2: in every reachable state, for every tree and every node of it, the downward paths from
  that node to an absent-child slot all pass through the same number of BLACK nodes: there is
  exactly one number that a path from the node can count.
\<close>

theorem C2_black_height_uniform:
  assumes "reachable m ts" and "t \<in> set ts" and "a \<in> nodes (cells m) (root t)"
  shows "\<exists>!n. black_path (cells m) (Some a) n"
proof -
  from reachable_tree[OF assms(1,2)] obtain T where ok: "tree_ok (cells m) t T" by blast
  then have r: "repr (cells m) None (root t) T" and ih: "invh T"
    by (simp_all add: tree_ok_def rbt_def)
  from assms(3) have "a \<in> set (addrs T)" using nodes_repr[OF r] by simp
  from repr_subtree[OF r this] obtain par l c k rr where
    rs: "repr (cells m) par (Some a) (Node l a c k rr)" and sub: "Node l a c k rr \<in> subtrees T"
    by blast
  from subtrees_invh[OF sub ih] have ivh: "invh (Node l a c k rr)" .
  show ?thesis
  proof (rule ex1I)
    show "black_path (cells m) (Some a) (bheight (Node l a c k rr))"
      using rs ivh by (rule black_path_bheight)
  next
    fix n assume "black_path (cells m) (Some a) n"
    then show "n = bheight (Node l a c k rr)"
      using rs ivh by (rule black_path_unique)
  qed
qed

text \<open>C2 at the root of the tree built from 10, 20, 30: every path from it counts one BLACK
  node.\<close>

theorem C2_black_height_uniform_witness:
  "reachable (fst (state_after [10, 20, 30])) [snd (state_after [10, 20, 30])] \<and>
   1 \<in> nodes (cells (fst (state_after [10, 20, 30]))) (root (snd (state_after [10, 20, 30]))) \<and>
   (\<exists>!n. black_path (cells (fst (state_after [10, 20, 30]))) (Some 1) n) \<and>
   black_path (cells (fst (state_after [10, 20, 30]))) (Some 1) 1"
proof -
  define m where "m = fst (state_after [10, 20, 30])"
  define t where "t = snd (state_after [10, 20, 30])"
  let ?T = "Node (Node Leaf 0 COLOR_RED 10 Leaf) 1 COLOR_BLACK 20 (Node Leaf 2 COLOR_RED 30 Leaf)"
  from reachable_state_after[OF state_10_20_30(1)] have r: "reachable m [t]"
    by (simp add: m_def t_def)
  have rep: "repr (cells m) None (root t) ?T"
    using state_10_20_30(2) by (simp add: m_def t_def)
  then have rt: "root t = Some 1" by simp
  from nodes_repr[OF rep] have n: "1 \<in> nodes (cells m) (root t)" by simp
  have "black_path (cells m) (root t) (bheight ?T)"
    using rep by (rule black_path_bheight) simp
  then have b: "black_path (cells m) (Some 1) 1" by (simp add: rt)
  from C2_black_height_uniform[OF r _ n] r n b show ?thesis
    unfolding m_def t_def by simp
qed

text \<open>
  C3: in every reachable state, a RED node of a tree has no RED child, neither on its left
  nor on its right link.
\<close>

theorem C3_no_red_red:
  assumes "reachable m ts" and "t \<in> set ts" and "a \<in> nodes (cells m) (root t)"
    and "color (cells m a) = COLOR_RED"
    and "left (cells m a) = Some c \<or> right (cells m a) = Some c"
  shows "color (cells m c) = COLOR_BLACK"
proof -
  from reachable_tree[OF assms(1,2)] obtain T where ok: "tree_ok (cells m) t T" by blast
  then have r: "repr (cells m) None (root t) T" and ic: "invc T"
    by (simp_all add: tree_ok_def rbt_def)
  from assms(3) have "a \<in> set (addrs T)" using nodes_repr[OF r] by simp
  from repr_subtree[OF r this] obtain par l ca k rr where
    rs: "repr (cells m) par (Some a) (Node l a ca k rr)" and sub: "Node l a ca k rr \<in> subtrees T"
    by blast
  from rs assms(4) have ca: "ca = COLOR_RED" by simp
  from subtrees_invc[OF sub ic] ca have bl: "rootcol l = COLOR_BLACK" "rootcol rr = COLOR_BLACK"
    by simp_all
  from rs have rl: "repr (cells m) (Some a) (left (cells m a)) l"
    and rr: "repr (cells m) (Some a) (right (cells m a)) rr" by simp_all
  from assms(5) show ?thesis
  proof
    assume "left (cells m a) = Some c"
    with rl bl(1) show ?thesis by (cases l) auto
  next
    assume "right (cells m a) = Some c"
    with rr bl(2) show ?thesis by (cases rr) auto
  qed
qed

text \<open>C3 in the tree built from 10, 20, 30, 40, 50, 60: the node holding 40 is RED and its
  left child, the node holding 30, is BLACK.\<close>

theorem C3_no_red_red_witness:
  "reachable (fst (state_after [10, 20, 30, 40, 50, 60])) [snd (state_after [10, 20, 30, 40, 50, 60])] \<and>
   3 \<in> nodes (cells (fst (state_after [10, 20, 30, 40, 50, 60])))
          (root (snd (state_after [10, 20, 30, 40, 50, 60]))) \<and>
   data (cells (fst (state_after [10, 20, 30, 40, 50, 60])) 3) = 40 \<and>
   color (cells (fst (state_after [10, 20, 30, 40, 50, 60])) 3) = COLOR_RED \<and>
   left (cells (fst (state_after [10, 20, 30, 40, 50, 60])) 3) = Some 2 \<and>
   color (cells (fst (state_after [10, 20, 30, 40, 50, 60])) 2) = COLOR_BLACK"
proof -
  define m where "m = fst (state_after [10, 20, 30, 40, 50, 60])"
  define t where "t = snd (state_after [10, 20, 30, 40, 50, 60])"
  from reachable_state_after[OF state_10_to_60(1)] have r: "reachable m [t]"
    by (simp add: m_def t_def)
  have rep: "repr (cells m) None (root t)
     (Node (Node Leaf 0 COLOR_BLACK 10 Leaf) 1 COLOR_BLACK 20
        (Node (Node Leaf 2 COLOR_BLACK 30 Leaf) 3 COLOR_RED 40
           (Node Leaf 4 COLOR_BLACK 50 (Node Leaf 5 COLOR_RED 60 Leaf))))"
    using state_10_to_60(2) by (simp add: m_def t_def)
  from nodes_repr[OF rep] have n: "3 \<in> nodes (cells m) (root t)" by simp
  from rep have f: "data (cells m 3) = 40" "color (cells m 3) = COLOR_RED" "left (cells m 3) = Some 2"
    by simp_all
  from C3_no_red_red[OF r _ n f(2), of 2] f(3) have "color (cells m 2) = COLOR_BLACK" by simp
  with r n f show ?thesis unfolding m_def t_def by simp
qed

text \<open>
  C4: in every reachable state (after any sequence of constructions and calls of
  \<^verbatim>\<open>Insert\<close>, failed ones included) every tree is empty or has a BLACK root.
\<close>

theorem C4_root_black:
  assumes "reachable m ts" and "t \<in> set ts"
  shows "root t = None \<or> (\<exists>r. root t = Some r \<and> color (cells m r) = COLOR_BLACK)"
proof -
  from reachable_tree[OF assms] obtain T where ok: "tree_ok (cells m) t T" by blast
  then have r: "repr (cells m) None (root t) T" and rb: "rootcol T = COLOR_BLACK"
    by (simp_all add: tree_ok_def rbt_def)
  then show ?thesis by (cases T) auto
qed

text \<open>C4 on the tree built from 10, 20, 30: its root holds 20 and is BLACK.\<close>

theorem C4_root_black_witness:
  "reachable (fst (state_after [10, 20, 30])) [snd (state_after [10, 20, 30])] \<and>
   root (snd (state_after [10, 20, 30])) = Some 1 \<and>
   data (cells (fst (state_after [10, 20, 30])) 1) = 20 \<and>
   color (cells (fst (state_after [10, 20, 30])) 1) = COLOR_BLACK"
proof -
  define m where "m = fst (state_after [10, 20, 30])"
  define t where "t = snd (state_after [10, 20, 30])"
  from reachable_state_after[OF state_10_20_30(1)] have r: "reachable m [t]"
    by (simp add: m_def t_def)
  have rep: "repr (cells m) None (root t)
      (Node (Node Leaf 0 COLOR_RED 10 Leaf) 1 COLOR_BLACK 20 (Node Leaf 2 COLOR_RED 30 Leaf))"
    using state_10_20_30(2) by (simp add: m_def t_def)
  then have rt: "root t = Some 1" and d: "data (cells m 1) = 20" by simp_all
  from C4_root_black[OF r, of t] rt have "color (cells m 1) = COLOR_BLACK" by simp
  with r rt d show ?thesis unfolding m_def t_def by simp
qed

text \<open>
  C5: in every reachable state the infix rendering of a tree is the concatenation of the
  node strings of all its nodes, each once, in strictly ascending order of their keys.
\<close>

theorem C5_infix_ascending:
  assumes "reachable m ts" and "t \<in> set ts"
  shows "\<exists>as. ToInfixString (cells m) (root t)
                 = Some (concat (map (\<lambda>a. GetNodeString (cells m) (Some a)) as)) \<and>
              set as = nodes (cells m) (root t) \<and> distinct as \<and>
              sorted_wrt (<) (map (\<lambda>a. data (cells m a)) as)"
proof -
  from reachable_tree[OF assms] obtain T where ok: "tree_ok (cells m) t T" by blast
  then have r: "repr (cells m) None (root t) T" and s: "sorted_wrt (<) (keys T)"
    and d: "distinct (addrs T)"
    by (simp_all add: tree_ok_def rbt_def)
  show ?thesis
    using infix_repr[OF r] nodes_repr[OF r] d s keys_addrs[OF r]
    by (intro exI[of _ "addrs T"]) simp
qed

text \<open>C5 on the tree built from 30, 10, 20: the rendering lists 10, 20, 30.\<close>

theorem C5_infix_ascending_witness:
  "reachable (fst (state_after [30, 10, 20])) [snd (state_after [30, 10, 20])] \<and>
   (\<exists>as. ToInfixString (cells (fst (state_after [30, 10, 20]))) (root (snd (state_after [30, 10, 20])))
           = Some (concat (map (\<lambda>a. GetNodeString (cells (fst (state_after [30, 10, 20]))) (Some a)) as)) \<and>
         sorted_wrt (<) (map (\<lambda>a. data (cells (fst (state_after [30, 10, 20])) a)) as)) \<and>
   ToInfixString (cells (fst (state_after [30, 10, 20]))) (root (snd (state_after [30, 10, 20])))
     = Some '' R10  B20  R30 ''"
proof -
  define m where "m = fst (state_after [30, 10, 20])"
  define t where "t = snd (state_after [30, 10, 20])"
  have "Insert_all empty_memory RedBlackTree_default [30, 10, 20] \<noteq> None"
    by (simp add: run_simps)
  from reachable_state_after[OF this] have r: "reachable m [t]"
    by (simp add: m_def t_def)
  have s: "ToInfixString (cells m) (root t) = Some '' R10  B20  R30 ''"
    by (simp add: m_def t_def state_after_def run_simps)
  from C5_infix_ascending[OF r, of t] r s show ?thesis
    unfolding m_def t_def by auto
qed

text \<open>
  C6: in every reachable state, \<^verbatim>\<open>GetMin\<close> and \<^verbatim>\<open>GetMax\<close> throw the empty-tree error exactly
  when the tree has no root, and on a tree with a root they return the smallest and the
  largest stored key.
\<close>

theorem C6_min_max:
  assumes "reachable m ts" and "t \<in> set ts"
  shows "(GetMin (cells m) t = Some (Inl Tree_is_empty) \<longleftrightarrow> root t = None) \<and>
         (GetMax (cells m) t = Some (Inl Tree_is_empty) \<longleftrightarrow> root t = None) \<and>
         (root t \<noteq> None \<longrightarrow>
            GetMin (cells m) t = Some (Inr (Min (stored_keys (cells m) t))) \<and>
            GetMax (cells m) t = Some (Inr (Max (stored_keys (cells m) t))))"
proof (cases "root t")
  case None
  then show ?thesis by (simp add: GetMin_def GetMax_def)
next
  case (Some a)
  from reachable_tree[OF assms] obtain T where ok: "tree_ok (cells m) t T" by blast
  then have r: "repr (cells m) None (root t) T" and s: "sorted_wrt (<) (keys T)"
    by (simp_all add: tree_ok_def rbt_def)
  from r Some have ne: "keys T \<noteq> []" by (cases T) auto
  have sk: "stored_keys (cells m) t = set (keys T)" using r by (rule stored_keys_repr)
  from GetMin_loop_correct[OF r[unfolded Some]] obtain b where
    "GetMin_loop (cells m) a = Some b" "data (cells m b) = hd (keys T)" by blast
  then have mn: "GetMin (cells m) t = Some (Inr (Min (stored_keys (cells m) t)))"
    using Some sorted_hd_Min[OF s ne] sk by (simp add: GetMin_def)
  from GetMax_loop_correct[OF r[unfolded Some]] obtain b' where
    "GetMax_loop (cells m) a = Some b'" "data (cells m b') = last (keys T)" by blast
  then have mx: "GetMax (cells m) t = Some (Inr (Max (stored_keys (cells m) t)))"
    using Some sorted_last_Max[OF s ne] sk by (simp add: GetMax_def)
  from mn mx Some show ?thesis by simp
qed

text \<open>C6 on the tree built from 20, 30, 10, whose smallest key is 10 and largest 30, and on
  the empty tree, where both calls throw.\<close>

theorem C6_min_max_witness:
  "reachable (fst (state_after [20, 30, 10])) [snd (state_after [20, 30, 10])] \<and>
   stored_keys (cells (fst (state_after [20, 30, 10]))) (snd (state_after [20, 30, 10])) = {10, 20, 30} \<and>
   GetMin (cells (fst (state_after [20, 30, 10]))) (snd (state_after [20, 30, 10])) = Some (Inr 10) \<and>
   GetMax (cells (fst (state_after [20, 30, 10]))) (snd (state_after [20, 30, 10])) = Some (Inr 30) \<and>
   reachable empty_memory [RedBlackTree_default] \<and>
   GetMin (cells empty_memory) RedBlackTree_default = Some (Inl Tree_is_empty) \<and>
   GetMax (cells empty_memory) RedBlackTree_default = Some (Inl Tree_is_empty)"
proof -
  define m where "m = fst (state_after [20, 30, 10])"
  define t where "t = snd (state_after [20, 30, 10])"
  have "Insert_all empty_memory RedBlackTree_default [20, 30, 10] \<noteq> None"
    by (simp add: run_simps)
  from reachable_state_after[OF this] have r: "reachable m [t]"
    by (simp add: m_def t_def)
  have rep: "repr (cells m) None (root t)
      (Node (Node Leaf 2 COLOR_RED 10 Leaf) 0 COLOR_BLACK 20 (Node Leaf 1 COLOR_RED 30 Leaf))"
    by (simp add: m_def t_def state_after_def run_simps)
  then have rt: "root t \<noteq> None" by simp
  from stored_keys_repr[OF rep] have sk: "stored_keys (cells m) t = {10, 20, 30}" by auto
  from C6_min_max[OF r, of t] rt sk
  have a: "GetMin (cells m) t = Some (Inr 10)" "GetMax (cells m) t = Some (Inr 30)" by simp_all
  have r0: "reachable empty_memory [RedBlackTree_default]"
    using reachable.default_ctor[OF reachable.start, of empty_memory] by simp
  have "root RedBlackTree_default = None" by (simp add: RedBlackTree_default_def)
  with C6_min_max[OF r0, of RedBlackTree_default]
  have b: "GetMin (cells empty_memory) RedBlackTree_default = Some (Inl Tree_is_empty)"
    "GetMax (cells empty_memory) RedBlackTree_default = Some (Inl Tree_is_empty)" by simp_all
  from r sk a r0 b show ?thesis unfolding m_def t_def by simp
qed

text \<open>
  C7: let the heap hold a tree with root pointer \<open>rt\<close> (that is what \<open>repr h None rt T\<close> with
  distinct addresses says: child links and parent back-pointers form the tree \<open>T\<close>), and let
  \<open>n\<close> be a node of it. If \<open>n\<close> has a right child \<open>r\<close>, \<^verbatim>\<open>LeftRotate(n)\<close> returns normally; no
  node's colour, key or \<^verbatim>\<open>IsNullNode\<close> flag changes; the heap again holds a tree, with the
  same in-order sequence of nodes and of keys and so the same infix rendering; \<open>r\<close> takes the
  place of \<open>n\<close> under \<open>n\<close>'s former parent, \<open>n\<close> becomes the left child of \<open>r\<close>, and the former
  left subtree of \<open>r\<close> becomes the right subtree of \<open>n\<close> with its parent pointer set to \<open>n\<close>;
  every node other than \<open>n\<close>, \<open>r\<close>, the root of that middle subtree and the former
  parent of \<open>n\<close> is left exactly as it was; and the tree's root pointer becomes \<open>r\<close> if \<open>n\<close> was
  the root and is unchanged otherwise. The same holds, mirrored, for \<^verbatim>\<open>RightRotate(n)\<close>
  when \<open>n\<close> has a left child.
\<close>

theorem C7_rotation:
  assumes "repr h None rt T" and "distinct (addrs T)" and "n \<in> set (addrs T)"
  shows "(\<forall>r. right (h n) = Some r \<longrightarrow>
            (\<exists>h' rt' T'. LeftRotate h rt n = Inr (h', rt') \<and>
               (\<forall>a. color (h' a) = color (h a) \<and> data (h' a) = data (h a) \<and>
                    IsNullNode (h' a) = IsNullNode (h a)) \<and>
               repr h' None rt' T' \<and> addrs T' = addrs T \<and> keys T' = keys T \<and>
               ToInfixString h' rt' = ToInfixString h rt \<and>
               parent (h' r) = parent (h n) \<and> left (h' r) = Some n \<and> parent (h' n) = Some r \<and>
               right (h' n) = left (h r) \<and>
               (\<forall>b. left (h r) = Some b \<longrightarrow> parent (h' b) = Some n) \<and>
               (\<forall>a. a \<noteq> n \<and> a \<noteq> r \<and> Some a \<noteq> left (h r) \<and> Some a \<noteq> parent (h n) \<longrightarrow>
                    h' a = h a) \<and>
               rt' = (if parent (h n) = None then Some r else rt))) \<and>
         (\<forall>l. left (h n) = Some l \<longrightarrow>
            (\<exists>h' rt' T'. RightRotate h rt n = Inr (h', rt') \<and>
               (\<forall>a. color (h' a) = color (h a) \<and> data (h' a) = data (h a) \<and>
                    IsNullNode (h' a) = IsNullNode (h a)) \<and>
               repr h' None rt' T' \<and> addrs T' = addrs T \<and> keys T' = keys T \<and>
               ToInfixString h' rt' = ToInfixString h rt \<and>
               parent (h' l) = parent (h n) \<and> right (h' l) = Some n \<and> parent (h' n) = Some l \<and>
               left (h' n) = right (h l) \<and>
               (\<forall>b. right (h l) = Some b \<longrightarrow> parent (h' b) = Some n) \<and>
               (\<forall>a. a \<noteq> n \<and> a \<noteq> l \<and> Some a \<noteq> right (h l) \<and> Some a \<noteq> parent (h n) \<longrightarrow>
                    h' a = h a) \<and>
               rt' = (if parent (h n) = None then Some l else rt)))"
proof (intro conjI allI impI)
  fix r assume "right (h n) = Some r"
  from LeftRotate_tree[OF assms this]
  show "\<exists>h' rt' T'. LeftRotate h rt n = Inr (h', rt') \<and>
               (\<forall>a. color (h' a) = color (h a) \<and> data (h' a) = data (h a) \<and>
                    IsNullNode (h' a) = IsNullNode (h a)) \<and>
               repr h' None rt' T' \<and> addrs T' = addrs T \<and> keys T' = keys T \<and>
               ToInfixString h' rt' = ToInfixString h rt \<and>
               parent (h' r) = parent (h n) \<and> left (h' r) = Some n \<and> parent (h' n) = Some r \<and>
               right (h' n) = left (h r) \<and>
               (\<forall>b. left (h r) = Some b \<longrightarrow> parent (h' b) = Some n) \<and>
               (\<forall>a. a \<noteq> n \<and> a \<noteq> r \<and> Some a \<noteq> left (h r) \<and> Some a \<noteq> parent (h n) \<longrightarrow>
                    h' a = h a) \<and>
               rt' = (if parent (h n) = None then Some r else rt)" .
next
  fix l assume "left (h n) = Some l"
  from RightRotate_tree[OF assms this]
  show "\<exists>h' rt' T'. RightRotate h rt n = Inr (h', rt') \<and>
               (\<forall>a. color (h' a) = color (h a) \<and> data (h' a) = data (h a) \<and>
                    IsNullNode (h' a) = IsNullNode (h a)) \<and>
               repr h' None rt' T' \<and> addrs T' = addrs T \<and> keys T' = keys T \<and>
               ToInfixString h' rt' = ToInfixString h rt \<and>
               parent (h' l) = parent (h n) \<and> right (h' l) = Some n \<and> parent (h' n) = Some l \<and>
               left (h' n) = right (h l) \<and>
               (\<forall>b. right (h l) = Some b \<longrightarrow> parent (h' b) = Some n) \<and>
               (\<forall>a. a \<noteq> n \<and> a \<noteq> l \<and> Some a \<noteq> right (h l) \<and> Some a \<noteq> parent (h n) \<longrightarrow>
                    h' a = h a) \<and>
               rt' = (if parent (h n) = None then Some l else rt)" .
qed

text \<open>C7 on two small trees: a left rotation at the root of the tree built from 10, 20, and a
  right rotation at the root of the tree built from 20, 10. Both keep the rendering and the
  colours, and make the former child the root.\<close>

theorem C7_rotation_witness:
  "repr (cells (fst (state_after [10, 20]))) None (root (snd (state_after [10, 20])))
     (Node Leaf 0 COLOR_BLACK 10 (Node Leaf 1 COLOR_RED 20 Leaf)) \<and>
   right (cells (fst (state_after [10, 20])) 0) = Some 1 \<and>
   (\<exists>h' rt'. LeftRotate (cells (fst (state_after [10, 20]))) (root (snd (state_after [10, 20]))) 0
                = Inr (h', rt') \<and> rt' = Some 1 \<and>
      ToInfixString h' rt' = Some '' B10  R20 '' \<and>
      color (h' 0) = COLOR_BLACK \<and> color (h' 1) = COLOR_RED \<and>
      left (h' 1) = Some 0 \<and> parent (h' 0) = Some 1 \<and> parent (h' 1) = None \<and> right (h' 0) = None) \<and>
   repr (cells (fst (state_after [20, 10]))) None (root (snd (state_after [20, 10])))
     (Node (Node Leaf 1 COLOR_RED 10 Leaf) 0 COLOR_BLACK 20 Leaf) \<and>
   left (cells (fst (state_after [20, 10])) 0) = Some 1 \<and>
   (\<exists>h' rt'. RightRotate (cells (fst (state_after [20, 10]))) (root (snd (state_after [20, 10]))) 0
                = Inr (h', rt') \<and> rt' = Some 1 \<and>
      ToInfixString h' rt' = Some '' R10  B20 '' \<and>
      color (h' 0) = COLOR_BLACK \<and> color (h' 1) = COLOR_RED \<and>
      right (h' 1) = Some 0 \<and> parent (h' 0) = Some 1 \<and> parent (h' 1) = None \<and> left (h' 0) = None)"
proof -
  define h1 where "h1 = cells (fst (state_after [10, 20]))"
  define r1 where "r1 = root (snd (state_after [10, 20]))"
  define h2 where "h2 = cells (fst (state_after [20, 10]))"
  define r2 where "r2 = root (snd (state_after [20, 10]))"
  let ?T1 = "Node Leaf 0 COLOR_BLACK 10 (Node Leaf 1 COLOR_RED 20 Leaf)"
  let ?T2 = "Node (Node Leaf 1 COLOR_RED 10 Leaf) 0 COLOR_BLACK 20 Leaf"
  have rep1: "repr h1 None r1 ?T1"
    by (simp add: h1_def r1_def state_after_def run_simps)
  have rep2: "repr h2 None r2 ?T2"
    by (simp add: h2_def r2_def state_after_def run_simps)
  have s1: "ToInfixString h1 r1 = Some '' B10  R20 ''"
    by (simp add: h1_def r1_def state_after_def run_simps)
  have s2: "ToInfixString h2 r2 = Some '' R10  B20 ''"
    by (simp add: h2_def r2_def state_after_def run_simps)
  from rep1 have f1: "right (h1 0) = Some 1" "color (h1 0) = COLOR_BLACK" "color (h1 1) = COLOR_RED"
    "parent (h1 0) = None" "left (h1 1) = None"
    by simp_all
  from rep2 have f2: "left (h2 0) = Some 1" "color (h2 0) = COLOR_BLACK" "color (h2 1) = COLOR_RED"
    "parent (h2 0) = None" "right (h2 1) = None"
    by simp_all
  have d1: "distinct (addrs ?T1)" "0 \<in> set (addrs ?T1)" by simp_all
  have d2: "distinct (addrs ?T2)" "0 \<in> set (addrs ?T2)" by simp_all
  from C7_rotation[OF rep1 d1] f1 s1
  have a: "\<exists>h' rt'. LeftRotate h1 r1 0 = Inr (h', rt') \<and> rt' = Some 1 \<and> ToInfixString h' rt' = Some '' B10  R20 '' \<and>
      color (h' 0) = COLOR_BLACK \<and> color (h' 1) = COLOR_RED \<and>
      left (h' 1) = Some 0 \<and> parent (h' 0) = Some 1 \<and> parent (h' 1) = None \<and> right (h' 0) = None"
    by fastforce
  from C7_rotation[OF rep2 d2] f2 s2
  have b: "\<exists>h' rt'. RightRotate h2 r2 0 = Inr (h', rt') \<and> rt' = Some 1 \<and> ToInfixString h' rt' = Some '' R10  B20 '' \<and>
      color (h' 0) = COLOR_BLACK \<and> color (h' 1) = COLOR_RED \<and>
      right (h' 1) = Some 0 \<and> parent (h' 0) = Some 1 \<and> parent (h' 1) = None \<and> left (h' 0) = None"
    by fastforce
  from rep1 f1(1) a rep2 f2(1) b show ?thesis
    unfolding h1_def r1_def h2_def r2_def by blast
qed

text \<open>
  C9: in every reachable state, copy-constructing from a tree returns a tree with the same
  count and the same three renderings (so the same keys and colours in the same shape), whose
  parent back-pointers are the inverses of its own child links, and which shares no node with
  the original; the original's nodes are not written. Afterwards a call of \<^verbatim>\<open>Insert\<close> on the
  copy, with any key, returns and leaves the node set and the three renderings of the original
  as they were, and a call of \<^verbatim>\<open>Insert\<close> on the original does the same for the copy. (The
  count of a tree is a field of its own object, which a call on the other object never
  receives.)
\<close>

theorem C9_copy_independent:
  assumes "reachable m ts" and "t \<in> set ts"
  shows "\<exists>m' t'. RedBlackTree_copy m t = Some (m', t') \<and>
           numItems t' = numItems t \<and>
           ToInfixString (cells m) (root t) \<noteq> None \<and>
           ToInfixString (cells m') (root t') = ToInfixString (cells m) (root t) \<and>
           ToPrefixString (cells m') (root t') = ToPrefixString (cells m) (root t) \<and>
           ToPostfixString (cells m') (root t') = ToPostfixString (cells m) (root t) \<and>
           parent_links (cells m') (root t') \<and>
           nodes (cells m') (root t') \<inter> nodes (cells m') (root t) = {} \<and>
           nodes (cells m') (root t) = nodes (cells m) (root t) \<and>
           (\<forall>a \<in> nodes (cells m) (root t). cells m' a = cells m a) \<and>
           (\<forall>k. \<exists>res m2 t2. Insert m' t' k = Some (res, m2, t2) \<and>
              nodes (cells m2) (root t) = nodes (cells m') (root t) \<and>
              ToInfixString (cells m2) (root t) = ToInfixString (cells m') (root t) \<and>
              ToPrefixString (cells m2) (root t) = ToPrefixString (cells m') (root t) \<and>
              ToPostfixString (cells m2) (root t) = ToPostfixString (cells m') (root t)) \<and>
           (\<forall>k. \<exists>res m2 t2. Insert m' t k = Some (res, m2, t2) \<and>
              nodes (cells m2) (root t') = nodes (cells m') (root t') \<and>
              ToInfixString (cells m2) (root t') = ToInfixString (cells m') (root t') \<and>
              ToPrefixString (cells m2) (root t') = ToPrefixString (cells m') (root t') \<and>
              ToPostfixString (cells m2) (root t') = ToPostfixString (cells m') (root t'))"
proof -
  from reachable_tree[OF assms] obtain T where ok: "tree_ok (cells m) t T"
    and below: "set (addrs T) \<subseteq> {..<next_free m}" by blast
  from ok have r: "repr (cells m) None (root t) T" and rb: "rbt T"
    and cnt: "numItems t = length (keys T)"
    by (simp_all add: tree_ok_def)
  from CopyOf_correct[OF r below] obtain m' q T' where
    c: "CopyOf m (root t) = Some (m', q)" and r': "repr (cells m') None q T'"
    and sh: "same_shape T T'" and d': "distinct (addrs T')"
    and a': "set (addrs T') = {next_free m..<next_free m'}" and le: "next_free m \<le> next_free m'"
    and same: "\<forall>z<next_free m. cells m' z = cells m z"
    by blast
  define t' where "t' = \<lparr>root = q, numItems = numItems t\<rparr>"
  have run: "RedBlackTree_copy m t = Some (m', t')"
    by (simp add: RedBlackTree_copy_def c t'_def)
  have rt': "root t' = q" and n': "numItems t' = numItems t" by (simp_all add: t'_def)
  have sameT: "\<And>a. a \<in> set (addrs T) \<Longrightarrow> cells m' a = cells m a"
    using below same by auto
  from renderings_cong[of T "cells m'" "cells m" "root t", OF sameT r]
  have r0: "repr (cells m') None (root t) T" and n0: "nodes (cells m') (root t) = nodes (cells m) (root t)"
    by simp_all
  have ok0: "tree_ok (cells m') t T" using r0 rb cnt by (simp add: tree_ok_def)
  have below0: "set (addrs T) \<subseteq> {..<next_free m'}" using below le by auto
  have ok': "tree_ok (cells m') t' T'"
    using r' same_shape_rbt[OF sh d' rb] cnt same_shape_keys[OF sh] by (simp add: tree_ok_def t'_def)
  have below': "set (addrs T') \<subseteq> {..<next_free m'}" using a' by auto
  have disj: "set (addrs T') \<inter> set (addrs T) = {}"
    using a' below by fastforce
  from same_shape_strings[OF sh r r'[folded rt']]
  have "ToInfixString (cells m') (root t') = ToInfixString (cells m) (root t)"
    "ToPrefixString (cells m') (root t') = ToPrefixString (cells m) (root t)"
    "ToPostfixString (cells m') (root t') = ToPostfixString (cells m) (root t)"
    unfolding infix_repr[OF r] infix_repr[OF r'[folded rt']] prefix_repr[OF r]
      prefix_repr[OF r'[folded rt']] postfix_repr[OF r] postfix_repr[OF r'[folded rt']]
    by simp_all
  moreover have "ToInfixString (cells m) (root t) \<noteq> None"
    unfolding infix_repr[OF r] by simp
  moreover have "parent_links (cells m') (root t')"
    using r' unfolding rt' by (rule repr_parent_links)
  moreover have "nodes (cells m') (root t') \<inter> nodes (cells m') (root t) = {}"
    unfolding nodes_repr[OF r'[folded rt']] nodes_repr[OF r0] by (rule disj)
  moreover have "\<forall>a \<in> nodes (cells m) (root t). cells m' a = cells m a"
    unfolding nodes_repr[OF r] using sameT by blast
  moreover have "\<forall>k. \<exists>res m2 t2. Insert m' t' k = Some (res, m2, t2) \<and>
              nodes (cells m2) (root t) = nodes (cells m') (root t) \<and>
              ToInfixString (cells m2) (root t) = ToInfixString (cells m') (root t) \<and>
              ToPrefixString (cells m2) (root t) = ToPrefixString (cells m') (root t) \<and>
              ToPostfixString (cells m2) (root t) = ToPostfixString (cells m') (root t)"
  proof
    fix k
    obtain res m2 t2 where i: "Insert m' t' k = Some (res, m2, t2)"
      using Insert_duplicate[OF ok', of k] Insert_new[OF ok' below', of k] by blast
    have "\<And>a. a \<in> set (addrs T) \<Longrightarrow> cells m2 a = cells m' a"
      using Insert_frame[OF ok' below' i] disj below0 by fastforce
    from renderings_cong[of T "cells m2" "cells m'" "root t", OF this r0] i
    show "\<exists>res m2 t2. Insert m' t' k = Some (res, m2, t2) \<and>
              nodes (cells m2) (root t) = nodes (cells m') (root t) \<and>
              ToInfixString (cells m2) (root t) = ToInfixString (cells m') (root t) \<and>
              ToPrefixString (cells m2) (root t) = ToPrefixString (cells m') (root t) \<and>
              ToPostfixString (cells m2) (root t) = ToPostfixString (cells m') (root t)"
      by blast
  qed
  moreover have "\<forall>k. \<exists>res m2 t2. Insert m' t k = Some (res, m2, t2) \<and>
              nodes (cells m2) (root t') = nodes (cells m') (root t') \<and>
              ToInfixString (cells m2) (root t') = ToInfixString (cells m') (root t') \<and>
              ToPrefixString (cells m2) (root t') = ToPrefixString (cells m') (root t') \<and>
              ToPostfixString (cells m2) (root t') = ToPostfixString (cells m') (root t')"
  proof
    fix k
    obtain res m2 t2 where i: "Insert m' t k = Some (res, m2, t2)"
      using Insert_duplicate[OF ok0, of k] Insert_new[OF ok0 below0, of k] by blast
    have "\<And>a. a \<in> set (addrs T') \<Longrightarrow> cells m2 a = cells m' a"
      using Insert_frame[OF ok0 below0 i] disj below' by fastforce
    from renderings_cong[of T' "cells m2" "cells m'" "root t'", OF this r'[folded rt']] i
    show "\<exists>res m2 t2. Insert m' t k = Some (res, m2, t2) \<and>
              nodes (cells m2) (root t') = nodes (cells m') (root t') \<and>
              ToInfixString (cells m2) (root t') = ToInfixString (cells m') (root t') \<and>
              ToPrefixString (cells m2) (root t') = ToPrefixString (cells m') (root t') \<and>
              ToPostfixString (cells m2) (root t') = ToPostfixString (cells m') (root t')"
      by blast
  qed
  ultimately show ?thesis
    using run n' n0 by (intro exI[of _ m'] exI[of _ t']) simp
qed

text \<open>C9 on the tree built from 10, 20, 30: the copy has count 3 and the same infix
  rendering, and after inserting 40 into the copy the original still renders as before.\<close>

theorem C9_copy_independent_witness:
  "reachable (fst (state_after [10, 20, 30])) [snd (state_after [10, 20, 30])] \<and>
   (\<exists>m' t'. RedBlackTree_copy (fst (state_after [10, 20, 30])) (snd (state_after [10, 20, 30]))
               = Some (m', t') \<and>
      numItems t' = 3 \<and>
      ToInfixString (cells m') (root t') = Some '' R10  B20  R30 '' \<and>
      (\<exists>res m2 t2. Insert m' t' 40 = Some (res, m2, t2) \<and>
         ToInfixString (cells m2) (root (snd (state_after [10, 20, 30]))) = Some '' R10  B20  R30 ''))"
proof -
  define m where "m = fst (state_after [10, 20, 30])"
  define t where "t = snd (state_after [10, 20, 30])"
  from reachable_state_after[OF state_10_20_30(1)] have r: "reachable m [t]"
    by (simp add: m_def t_def)
  have rep: "repr (cells m) None (root t)
      (Node (Node Leaf 0 COLOR_RED 10 Leaf) 1 COLOR_BLACK 20 (Node Leaf 2 COLOR_RED 30 Leaf))"
    using state_10_20_30(2) by (simp add: m_def t_def)
  have s: "ToInfixString (cells m) (root t) = Some '' R10  B20  R30 ''"
    unfolding infix_repr[OF rep] using rep
    by (simp add: GetNodeString_def GetColorString_def to_string_def)
  have n: "numItems t = 3" using state_10_20_30(3) by (simp add: t_def)
  from C9_copy_independent[OF r, of t] obtain m' t' where
    c: "RedBlackTree_copy m t = Some (m', t')" and n': "numItems t' = numItems t"
    and s': "ToInfixString (cells m') (root t') = ToInfixString (cells m) (root t)"
    and i: "\<forall>k. \<exists>res m2 t2. Insert m' t' k = Some (res, m2, t2) \<and>
              nodes (cells m2) (root t) = nodes (cells m') (root t) \<and>
              ToInfixString (cells m2) (root t) = ToInfixString (cells m') (root t) \<and>
              ToPrefixString (cells m2) (root t) = ToPrefixString (cells m') (root t) \<and>
              ToPostfixString (cells m2) (root t) = ToPostfixString (cells m') (root t)"
    and o: "\<forall>k. \<exists>res m2 t2. Insert m' t k = Some (res, m2, t2) \<and>
              nodes (cells m2) (root t') = nodes (cells m') (root t') \<and>
              ToInfixString (cells m2) (root t') = ToInfixString (cells m') (root t') \<and>
              ToPrefixString (cells m2) (root t') = ToPrefixString (cells m') (root t') \<and>
              ToPostfixString (cells m2) (root t') = ToPostfixString (cells m') (root t')"
    and u: "\<forall>a \<in> nodes (cells m) (root t). cells m' a = cells m a"
    and nn: "nodes (cells m') (root t) = nodes (cells m) (root t)"
    by auto
  have rep': "repr (cells m') None (root t)
      (Node (Node Leaf 0 COLOR_RED 10 Leaf) 1 COLOR_BLACK 20 (Node Leaf 2 COLOR_RED 30 Leaf))"
    using renderings_cong[OF _ rep, of "cells m'"] u nodes_repr[OF rep] by simp
  have s0: "ToInfixString (cells m') (root t) = Some '' R10  B20  R30 ''"
    unfolding infix_repr[OF rep'] using rep'
    by (simp add: GetNodeString_def GetColorString_def to_string_def)
  from i obtain res m2 t2 where "Insert m' t' 40 = Some (res, m2, t2)"
    "ToInfixString (cells m2) (root t) = ToInfixString (cells m') (root t)"
    by blast
  with c n n' s s' s0 r show ?thesis
    unfolding m_def t_def by auto
qed

end
